theory Spec2Isabelle
  imports Main "HOL-Library.Word" "HOL-Library.Multiset" "HOL-Library.Monad_Syntax"
begin

section \<open>Buffers, assertions and loops\<close>

text \<open>
  The vertex cache optimizer of meshoptimizer (\<^verbatim>\<open>vcacheoptimizer.cpp\<close>) is embedded in the
  option monad: \<open>None\<close> is a read or write outside a buffer, a failed assertion, or a loop
  that does not stop; \<open>Some\<close> is a normal return.

  Sizes, cursors, vertex and triangle indices are natural numbers. They stand for the
  program's \<^verbatim>\<open>unsigned int\<close> and \<^verbatim>\<open>size_t\<close> values as long as \<^verbatim>\<open>index_count\<close> and
  \<^verbatim>\<open>vertex_count\<close> are below \<open>2^32\<close>; a decrement of an \<^verbatim>\<open>unsigned int\<close> wraps around,
  which \<open>sub32\<close> writes out. The sentinel \<^verbatim>\<open>~0u\<close> ("none") is \<open>None\<close> of an inner option type.
  The time stamps of the FIFO variant are 32-bit words. A freshly allocated buffer is a list
  of zeros.
\<close>

definition rd :: "'a list \<Rightarrow> nat \<Rightarrow> 'a option" where
  "rd xs i = (if i < length xs then Some (xs ! i) else None)"

definition wr :: "'a list \<Rightarrow> nat \<Rightarrow> 'a \<Rightarrow> 'a list option" where
  "wr xs i v = (if i < length xs then Some (xs[i := v]) else None)"

text \<open>\<open>c_assert chk c\<close> is \<^verbatim>\<open>assert(c)\<close>; \<open>chk\<close> says that assertions are compiled in
  (\<^verbatim>\<open>NDEBUG\<close> is not defined).\<close>

definition c_assert :: "bool \<Rightarrow> bool \<Rightarrow> unit option" where
  "c_assert chk c = (if chk \<and> \<not> c then None else Some ())"

definition memcpy :: "'a list \<Rightarrow> nat \<Rightarrow> 'a list option" where
  "memcpy src n = (if n \<le> length src then Some (take n src) else None)"

definition sub32 :: "nat \<Rightarrow> nat \<Rightarrow> nat" where
  "sub32 x y = (x + 2 ^ 32 - y) mod 2 ^ 32"

text \<open>\<^verbatim>\<open>for (i = 0; i < n; ++i) body\<close> is \<open>for_loop [0..<n] body\<close>.\<close>

fun for_loop :: "nat list \<Rightarrow> (nat \<Rightarrow> 'st \<Rightarrow> 'st option) \<Rightarrow> 'st \<Rightarrow> 'st option" where
  "for_loop [] body s = Some s"
| "for_loop (i # is) body s = (case body i s of None \<Rightarrow> None | Some s' \<Rightarrow> for_loop is body s')"

partial_function (option) while_loop :: "('st \<Rightarrow> bool) \<Rightarrow> ('st \<Rightarrow> 'st option) \<Rightarrow> 'st \<Rightarrow> 'st option" where
  "while_loop cond body s =
     (if cond s then (case body s of None \<Rightarrow> None | Some s' \<Rightarrow> while_loop cond body s') else Some s)"

declare while_loop.simps [code]

section \<open>Scoring model\<close>

text \<open>
  Scores are \<^verbatim>\<open>float\<close>s in the program. Here they are values of any linearly ordered type
  \<open>'s\<close>, with the addition, the subtraction and the reading of a decimal literal given as
  parameters (\<open>flit ar n\<close> is the \<^verbatim>\<open>float\<close> written \<open>n/1000\<close>): what is proved for every
  \<open>ar\<close> holds whatever the rounding does. Two instances are defined: \<open>float32_ar\<close>, the
  arithmetic of the program, and \<open>exact_ar\<close>, arithmetic without rounding in thousandths.
  \<open>exact_ar\<close> is not the arithmetic of the program; it serves as a second instance of the
  parameter and to tell what the rounding changes.
\<close>

record 's arith =
  fadd :: "'s \<Rightarrow> 's \<Rightarrow> 's"
  fsub :: "'s \<Rightarrow> 's \<Rightarrow> 's"
  flit :: "int \<Rightarrow> 's"

definition exact_ar :: "int arith" where
  "exact_ar = \<lparr>fadd = (\<lambda>x y. x + y), fsub = (\<lambda>x y. x - y), flit = (\<lambda>n. n)\<rparr>"

text \<open>
  The program's scores are IEEE 754 binary32 numbers (\<^verbatim>\<open>float\<close>), and every addition and
  subtraction rounds to nearest, ties to even (each operation is taken to be evaluated in
  \<^verbatim>\<open>float\<close>, as on a target with \<^verbatim>\<open>FLT_EVAL_METHOD == 0\<close>). A finite \<^verbatim>\<open>float\<close> is a
  multiple of \<open>2^-149\<close>; it is written here as that multiple, an integer \<open>x\<close> standing for
  \<open>x * 2^-149\<close>, so that the order of the integers is the order of the numbers. The integers with at most 24 binary digits are
  the subnormal numbers and the first normal ones; a longer integer is a \<^verbatim>\<open>float\<close> when all its
  digits after the first 24 are zero. Overflow to infinity (from \<open>2^128\<close> on) is not modelled:
  the scores are sums of a few table entries below 1.
\<close>

fun bit_length :: "nat \<Rightarrow> nat" where
  "bit_length n = (if n = 0 then 0 else Suc (bit_length (n div 2)))"

declare bit_length.simps [simp del]

text \<open>\<open>round_div n d\<close>: the integer nearest to \<open>n / d\<close>, the even one of the two when \<open>n / d\<close> is
  half way between them.\<close>

definition round_div :: "int \<Rightarrow> int \<Rightarrow> int" where
  "round_div n d =
     (let q = n div d; r = n mod d
      in if 2 * r < d then q else if d < 2 * r then q + 1 else if even q then q else q + 1)"

text \<open>\<open>float_of_ratio n d\<close>: the \<^verbatim>\<open>float\<close> nearest to \<open>(n / d) * 2^-149\<close>.\<close>

definition float_of_ratio :: "int \<Rightarrow> int \<Rightarrow> int" where
  "float_of_ratio n d =
     (let k = bit_length (nat (\<bar>n\<bar> div d)) - 24
      in round_div n (d * 2 ^ k) * 2 ^ k)"

definition float32_ar :: "int arith" where
  "float32_ar =
     \<lparr>fadd = (\<lambda>x y. float_of_ratio (x + y) 1),
      fsub = (\<lambda>x y. float_of_ratio (x - y) 1),
      flit = (\<lambda>n. float_of_ratio (n * 2 ^ 149) 1000)\<rparr>"

definition max_cache_size :: nat where
  "max_cache_size = 16"

definition max_valence :: nat where
  "max_valence = 8"

text \<open>The two tables, in thousandths.\<close>

definition vertex_score_table_cache :: "int list" where
  "vertex_score_table_cache =
     [0,
      792, 767, 764, 956, 827, 751, 820, 864, 738, 788, 642, 646, 165, 654, 545, 284]"

definition vertex_score_table_live :: "int list" where
  "vertex_score_table_live =
     [0,
      994, 721, 479, 423, 174, 80, 249, 56]"

definition rd_int :: "'a list \<Rightarrow> int \<Rightarrow> 'a option" where
  "rd_int xs i = (if 0 \<le> i then rd xs (nat i) else None)"

definition vertexScore :: "'s arith \<Rightarrow> bool \<Rightarrow> int \<Rightarrow> nat \<Rightarrow> 's option" where
  "vertexScore ar chk cache_position live_triangles = do {
     c_assert chk (cache_position \<ge> -1 \<and> cache_position < int max_cache_size);
     let live_triangles_clamped = (if live_triangles < max_valence then live_triangles else max_valence);
     sc \<leftarrow> rd_int vertex_score_table_cache (1 + cache_position);
     sl \<leftarrow> rd vertex_score_table_live live_triangles_clamped;
     Some (fadd ar (flit ar sc) (flit ar sl))
   }"

section \<open>Adjacency\<close>

record Adjacency =
  triangle_counts :: "nat list"
  offsets :: "nat list"
  data :: "nat list"

definition Adjacency_new :: "nat \<Rightarrow> nat \<Rightarrow> Adjacency" where
  "Adjacency_new index_count vertex_count =
     \<lparr>triangle_counts = replicate vertex_count 0,
      offsets = replicate vertex_count 0,
      data = replicate index_count 0\<rparr>"

text \<open>\<^verbatim>\<open>adjacency.data[adjacency.offsets[v]++] = unsigned(i)\<close>\<close>

definition scatter :: "nat \<Rightarrow> nat \<Rightarrow> Adjacency \<Rightarrow> Adjacency option" where
  "scatter v i adjacency = do {
     off \<leftarrow> rd (offsets adjacency) v;
     os \<leftarrow> wr (offsets adjacency) v (off + 1);
     d \<leftarrow> wr (data adjacency) off i;
     Some (adjacency\<lparr>offsets := os, data := d\<rparr>)
   }"

text \<open>Lines 43 to 54: fill triangle counts.\<close>

definition fill_triangle_counts :: "bool \<Rightarrow> nat list \<Rightarrow> nat \<Rightarrow> nat \<Rightarrow> Adjacency \<Rightarrow> Adjacency option" where
  "fill_triangle_counts chk indices index_count vertex_count adjacency = do {
     adjacency \<leftarrow> for_loop [0..<vertex_count] (\<lambda>i adjacency. do {
         tc \<leftarrow> wr (triangle_counts adjacency) i 0;
         Some (adjacency\<lparr>triangle_counts := tc\<rparr>)
       }) adjacency;
     for_loop [0..<index_count] (\<lambda>i adjacency. do {
         v \<leftarrow> rd indices i;
         c_assert chk (v < vertex_count);
         n \<leftarrow> rd (triangle_counts adjacency) v;
         tc \<leftarrow> wr (triangle_counts adjacency) v (n + 1);
         Some (adjacency\<lparr>triangle_counts := tc\<rparr>)
       }) adjacency
   }"

text \<open>Lines 56 to 65: fill offset table.\<close>

definition fill_offset_table :: "bool \<Rightarrow> nat \<Rightarrow> nat \<Rightarrow> Adjacency \<Rightarrow> Adjacency option" where
  "fill_offset_table chk index_count vertex_count adjacency = do {
     (adjacency, offset) \<leftarrow> for_loop [0..<vertex_count] (\<lambda>i (adjacency, offset). do {
         os \<leftarrow> wr (offsets adjacency) i offset;
         n \<leftarrow> rd (triangle_counts adjacency) i;
         Some (adjacency\<lparr>offsets := os\<rparr>, offset + n)
       }) (adjacency, 0);
     c_assert chk (offset = index_count);
     Some adjacency
   }"

text \<open>Lines 67 to 75: fill triangle data.\<close>

definition fill_triangle_data :: "nat list \<Rightarrow> nat \<Rightarrow> Adjacency \<Rightarrow> Adjacency option" where
  "fill_triangle_data indices face_count adjacency =
     for_loop [0..<face_count] (\<lambda>i adjacency. do {
         a \<leftarrow> rd indices (i * 3 + 0);
         b \<leftarrow> rd indices (i * 3 + 1);
         c \<leftarrow> rd indices (i * 3 + 2);
         adjacency \<leftarrow> scatter a i adjacency;
         adjacency \<leftarrow> scatter b i adjacency;
         scatter c i adjacency
       }) adjacency"

text \<open>Lines 77 to 83: fix offsets that have been disturbed by the previous pass.\<close>

definition fix_offsets :: "bool \<Rightarrow> nat \<Rightarrow> Adjacency \<Rightarrow> Adjacency option" where
  "fix_offsets chk vertex_count adjacency =
     for_loop [0..<vertex_count] (\<lambda>i adjacency. do {
         off \<leftarrow> rd (offsets adjacency) i;
         n \<leftarrow> rd (triangle_counts adjacency) i;
         c_assert chk (off \<ge> n);
         os \<leftarrow> wr (offsets adjacency) i (sub32 off n);
         Some (adjacency\<lparr>offsets := os\<rparr>)
       }) adjacency"

definition buildAdjacency :: "bool \<Rightarrow> Adjacency \<Rightarrow> nat list \<Rightarrow> nat \<Rightarrow> nat \<Rightarrow> Adjacency option" where
  "buildAdjacency chk adjacency indices index_count vertex_count = do {
     let face_count = index_count div 3;
     adjacency \<leftarrow> fill_triangle_counts chk indices index_count vertex_count adjacency;
     adjacency \<leftarrow> fill_offset_table chk index_count vertex_count adjacency;
     adjacency \<leftarrow> fill_triangle_data indices face_count adjacency;
     fix_offsets chk vertex_count adjacency
   }"

section \<open>Selection of the next vertex and of the next triangle\<close>

text \<open>Lines 88 to 95: the dead-end stack is popped until a vertex with live triangles shows up.
  The result is the vertex found, if any, and the new \<^verbatim>\<open>dead_end_top\<close>.\<close>

fun check_dead_end_stack :: "nat list \<Rightarrow> nat \<Rightarrow> nat list \<Rightarrow> (nat option \<times> nat) option" where
  "check_dead_end_stack dead_end 0 live_triangles = Some (None, 0)"
| "check_dead_end_stack dead_end (Suc dead_end_top) live_triangles = do {
     vertex \<leftarrow> rd dead_end dead_end_top;
     n \<leftarrow> rd live_triangles vertex;
     if n > 0 then Some (Some vertex, dead_end_top)
     else check_dead_end_stack dead_end dead_end_top live_triangles
   }"

text \<open>Lines 97 to 104.\<close>

function vertex_input_order :: "nat \<Rightarrow> nat list \<Rightarrow> nat \<Rightarrow> (nat option \<times> nat) option" where
  "vertex_input_order input_cursor live_triangles vertex_count =
     (if input_cursor < vertex_count then
        (case rd live_triangles input_cursor of
           None \<Rightarrow> None
         | Some n \<Rightarrow>
             if n > 0 then Some (Some input_cursor, input_cursor)
             else vertex_input_order (input_cursor + 1) live_triangles vertex_count)
      else Some (None, input_cursor))"
  by pat_completeness auto
termination
  by (relation "measure (\<lambda>(input_cursor, live_triangles, vertex_count). vertex_count - input_cursor)") auto

text \<open>The result is the vertex, the new \<^verbatim>\<open>dead_end_top\<close> and the new \<^verbatim>\<open>input_cursor\<close>.\<close>

definition getNextVertexDeadEnd ::
  "nat list \<Rightarrow> nat \<Rightarrow> nat \<Rightarrow> nat list \<Rightarrow> nat \<Rightarrow> (nat option \<times> nat \<times> nat) option" where
  "getNextVertexDeadEnd dead_end dead_end_top input_cursor live_triangles vertex_count = do {
     (v, dead_end_top) \<leftarrow> check_dead_end_stack dead_end dead_end_top live_triangles;
     if v \<noteq> None then Some (v, dead_end_top, input_cursor)
     else do {
       (v, input_cursor) \<leftarrow> vertex_input_order input_cursor live_triangles vertex_count;
       Some (v, dead_end_top, input_cursor)
     }
   }"

text \<open>Lines 116 to 134: one candidate. \<^verbatim>\<open>priority\<close> and \<^verbatim>\<open>best_priority\<close> are \<^verbatim>\<open>int\<close>s, the
  other numbers \<^verbatim>\<open>unsigned int\<close>s.\<close>

definition candidate_priority :: "nat \<Rightarrow> 32 word \<Rightarrow> 32 word \<Rightarrow> 32 word \<Rightarrow> int" where
  "candidate_priority n cache_timestamp timestamp cache_size =
     (if 2 * of_nat n + timestamp - cache_timestamp \<le> cache_size
      then sint (timestamp - cache_timestamp) else 0)"

definition next_candidate ::
  "nat list \<Rightarrow> nat list \<Rightarrow> 32 word list \<Rightarrow> 32 word \<Rightarrow> 32 word \<Rightarrow> nat \<Rightarrow> nat option \<times> int \<Rightarrow> (nat option \<times> int) option" where
  "next_candidate dead_end live_triangles cache_timestamps timestamp cache_size p best =
     (case best of (best_candidate, best_priority) \<Rightarrow> do {
        vertex \<leftarrow> rd dead_end p;
        n \<leftarrow> rd live_triangles vertex;
        if n > 0 then do {
          ct \<leftarrow> rd cache_timestamps vertex;
          let priority = candidate_priority n ct timestamp cache_size;
          if priority > best_priority then Some (Some vertex, priority)
          else Some (best_candidate, best_priority)
        } else Some (best_candidate, best_priority)
      })"

text \<open>Lines 109 to 138. The two pointers into the dead-end stack are positions in it.\<close>

definition getNextVertexNeighbour ::
  "nat list \<Rightarrow> nat \<Rightarrow> nat \<Rightarrow> nat list \<Rightarrow> 32 word list \<Rightarrow> 32 word \<Rightarrow> 32 word \<Rightarrow> nat option option" where
  "getNextVertexNeighbour dead_end next_candidates_begin next_candidates_end live_triangles
       cache_timestamps timestamp cache_size =
     (if next_candidates_begin \<le> next_candidates_end then
        map_option fst
          (for_loop [next_candidates_begin..<next_candidates_end]
             (next_candidate dead_end live_triangles cache_timestamps timestamp cache_size)
             (None, -1))
      else None)"

text \<open>Lines 149 to 161.\<close>

function getNextTriangleDeadEnd :: "nat \<Rightarrow> bool list \<Rightarrow> nat \<Rightarrow> (nat option \<times> nat) option" where
  "getNextTriangleDeadEnd input_cursor emitted_flags face_count =
     (if input_cursor < face_count then
        (case rd emitted_flags input_cursor of
           None \<Rightarrow> None
         | Some e \<Rightarrow>
             if \<not> e then Some (Some input_cursor, input_cursor)
             else getNextTriangleDeadEnd (input_cursor + 1) emitted_flags face_count)
      else Some (None, input_cursor))"
  by pat_completeness auto
termination
  by (relation "measure (\<lambda>(input_cursor, emitted_flags, face_count). face_count - input_cursor)") auto

section \<open>Caller memory\<close>

text \<open>
  The caller's buffers are named by their addresses: \<open>mem p\<close> is the contents of the buffer
  that starts at \<open>p\<close>, and two different addresses are two disjoint buffers. The pointer
  \<^verbatim>\<open>indices\<close> is either a caller's address or, after an in-place call has copied the input,
  the local \<^verbatim>\<open>indices_copy\<close>.
\<close>

type_synonym memory = "nat \<Rightarrow> nat list"

datatype ptr = Ext nat | Copy

definition deref :: "memory \<Rightarrow> nat list \<Rightarrow> ptr \<Rightarrow> nat list" where
  "deref m indices_copy p = (case p of Ext a \<Rightarrow> m a | Copy \<Rightarrow> indices_copy)"

definition wr_mem :: "memory \<Rightarrow> nat \<Rightarrow> nat \<Rightarrow> nat \<Rightarrow> memory option" where
  "wr_mem m p i v = do { d \<leftarrow> wr (m p) i v; Some (m(p := d)) }"

text \<open>The pointer test \<^verbatim>\<open>destination == indices\<close> and the copy it guards.\<close>

definition support_in_place :: "memory \<Rightarrow> nat \<Rightarrow> nat \<Rightarrow> nat \<Rightarrow> (nat list \<times> ptr) option" where
  "support_in_place m destination indices index_count =
     (if destination = indices then do {
        indices_copy \<leftarrow> memcpy (m indices) index_count;
        Some (indices_copy, Copy)
      } else Some ([], Ext indices))"

section \<open>Vertex cache triangle reorderer\<close>

text \<open>The variables the two optimizers share.\<close>

record core_state =
  mem :: memory
  live_triangles :: "nat list"
  emitted_flags :: "bool list"
  input_cursor :: nat
  output_triangle :: nat

record 's vc_state = core_state +
  adjacency :: Adjacency
  vertex_scores :: "'s list"
  triangle_scores :: "'s list"
  cache :: "nat list"
  cache_new :: "nat list"
  cache_count :: nat
  cache_write :: nat
  current_triangle :: "nat option"
  best_triangle :: "nat option"
  best_score :: 's

record fifo_state = core_state +
  cache_timestamps :: "32 word list"
  dead_end :: "nat list"
  dead_end_top :: nat
  current_vertex :: "nat option"
  timestamp :: "32 word"

text \<open>Lines 234 to 248: the current triangle goes to the output.\<close>

definition output_indices ::
  "bool \<Rightarrow> nat \<Rightarrow> nat list \<Rightarrow> ptr \<Rightarrow> nat \<Rightarrow> nat \<Rightarrow> 's arith \<Rightarrow> 's vc_state \<Rightarrow> ((nat \<times> nat \<times> nat) \<times> 's vc_state) option" where
  "output_indices chk destination indices_copy indices face_count t ar s = do {
     c_assert chk (output_triangle s < face_count);
     a \<leftarrow> rd (deref (mem s) indices_copy indices) (t * 3 + 0);
     b \<leftarrow> rd (deref (mem s) indices_copy indices) (t * 3 + 1);
     c \<leftarrow> rd (deref (mem s) indices_copy indices) (t * 3 + 2);
     m \<leftarrow> wr_mem (mem s) destination (output_triangle s * 3 + 0) a;
     m \<leftarrow> wr_mem m destination (output_triangle s * 3 + 1) b;
     m \<leftarrow> wr_mem m destination (output_triangle s * 3 + 2) c;
     ef \<leftarrow> wr (emitted_flags s) t True;
     ts \<leftarrow> wr (triangle_scores s) t (flit ar 0);
     Some ((a, b, c), s\<lparr>mem := m, output_triangle := output_triangle s + 1,
                         emitted_flags := ef, triangle_scores := ts\<rparr>)
   }"

text \<open>Lines 250 to 269: the new cache list.\<close>

definition update_cache :: "nat \<Rightarrow> nat \<times> nat \<times> nat \<Rightarrow> 's vc_state \<Rightarrow> 's vc_state option" where
  "update_cache cache_size abc s = (case abc of (a, b, c) \<Rightarrow> do {
     cn \<leftarrow> wr (cache_new s) 0 a;
     cn \<leftarrow> wr cn 1 b;
     cn \<leftarrow> wr cn 2 c;
     s \<leftarrow> for_loop [0..<cache_count s] (\<lambda>i s. do {
         index \<leftarrow> rd (cache s) i;
         if index \<noteq> a \<and> index \<noteq> b \<and> index \<noteq> c then do {
           cn \<leftarrow> wr (cache_new s) (cache_write s) index;
           Some (s\<lparr>cache_new := cn, cache_write := cache_write s + 1\<rparr>)
         } else Some s
       }) (s\<lparr>cache_new := cn, cache_write := 3\<rparr>);
     Some (s\<lparr>cache := cache_new s, cache_new := cache s,
             cache_count := (if cache_write s > cache_size then cache_size else cache_write s)\<rparr>)
   })"

text \<open>Lines 271 to 274.\<close>

definition update_live :: "nat \<times> nat \<times> nat \<Rightarrow> nat list \<Rightarrow> nat list option" where
  "update_live abc live = (case abc of (a, b, c) \<Rightarrow> do {
     n \<leftarrow> rd live a;
     live \<leftarrow> wr live a (sub32 n 1);
     n \<leftarrow> rd live b;
     live \<leftarrow> wr live b (sub32 n 1);
     n \<leftarrow> rd live c;
     wr live c (sub32 n 1)
   })"

text \<open>Lines 285 to 295: the search of one neighbour list, left at the first hit.\<close>

fun remove_neighbour :: "nat list \<Rightarrow> nat \<Rightarrow> nat \<Rightarrow> nat \<Rightarrow> nat \<Rightarrow> Adjacency \<Rightarrow> Adjacency option" where
  "remove_neighbour [] index neighbours neighbours_size t adj = Some adj"
| "remove_neighbour (i # is) index neighbours neighbours_size t adj = do {
     tri \<leftarrow> rd (data adj) (neighbours + i);
     if tri = t then do {
       l \<leftarrow> rd (data adj) (neighbours + (neighbours_size - 1));
       d \<leftarrow> wr (data adj) (neighbours + i) l;
       n \<leftarrow> rd (triangle_counts adj) index;
       tc \<leftarrow> wr (triangle_counts adj) index (sub32 n 1);
       Some (adj\<lparr>data := d, triangle_counts := tc\<rparr>)
     } else remove_neighbour is index neighbours neighbours_size t adj
   }"

text \<open>Lines 278 to 296.\<close>

definition remove_emitted :: "nat list \<Rightarrow> nat \<Rightarrow> Adjacency \<Rightarrow> Adjacency option" where
  "remove_emitted idx t adj =
     for_loop [0..<3] (\<lambda>k adj. do {
         index \<leftarrow> rd idx (t * 3 + k);
         neighbours \<leftarrow> rd (offsets adj) index;
         neighbours_size \<leftarrow> rd (triangle_counts adj) index;
         remove_neighbour [0..<neighbours_size] index neighbours neighbours_size t adj
       }) adj"

text \<open>Lines 318 to 333: one triangle of a neighbour list.\<close>

definition update_triangle :: "'s::linorder arith \<Rightarrow> bool \<Rightarrow> 's \<Rightarrow> nat \<Rightarrow> 's vc_state \<Rightarrow> 's vc_state option" where
  "update_triangle ar chk score_diff it s = do {
     tri \<leftarrow> rd (data (adjacency s)) it;
     e \<leftarrow> rd (emitted_flags s) tri;
     c_assert chk (\<not> e);
     sc \<leftarrow> rd (triangle_scores s) tri;
     let tri_score = fadd ar sc score_diff;
     c_assert chk (tri_score > flit ar 0);
     let s = (if best_score s < tri_score
              then s\<lparr>best_triangle := Some tri, best_score := tri_score\<rparr> else s);
     ts \<leftarrow> wr (triangle_scores s) tri tri_score;
     Some (s\<lparr>triangle_scores := ts\<rparr>)
   }"

text \<open>Lines 302 to 334: one entry of the new cache list.\<close>

definition update_vertex :: "'s::linorder arith \<Rightarrow> bool \<Rightarrow> nat \<Rightarrow> nat \<Rightarrow> 's vc_state \<Rightarrow> 's vc_state option" where
  "update_vertex ar chk cache_size i s = do {
     index \<leftarrow> rd (cache s) i;
     let cache_position = (if i \<ge> cache_size then -1 else int i);
     n \<leftarrow> rd (live_triangles s) index;
     score \<leftarrow> vertexScore ar chk cache_position n;
     old \<leftarrow> rd (vertex_scores s) index;
     let score_diff = fsub ar score old;
     vs \<leftarrow> wr (vertex_scores s) index score;
     neighbours_begin \<leftarrow> rd (offsets (adjacency s)) index;
     neighbours_size \<leftarrow> rd (triangle_counts (adjacency s)) index;
     for_loop [neighbours_begin..<neighbours_begin + neighbours_size]
       (update_triangle ar chk score_diff) (s\<lparr>vertex_scores := vs\<rparr>)
   }"

definition update_scores :: "'s::linorder arith \<Rightarrow> bool \<Rightarrow> nat \<Rightarrow> 's vc_state \<Rightarrow> 's vc_state option" where
  "update_scores ar chk cache_size s =
     for_loop [0..<cache_write s] (update_vertex ar chk cache_size)
       (s\<lparr>best_triangle := None, best_score := flit ar 0\<rparr>)"

text \<open>Lines 337 to 342.\<close>

definition next_triangle :: "nat \<Rightarrow> 's vc_state \<Rightarrow> 's vc_state option" where
  "next_triangle face_count s =
     (if best_triangle s = None then do {
        (t, cur) \<leftarrow> getNextTriangleDeadEnd (input_cursor s) (emitted_flags s) face_count;
        Some (s\<lparr>current_triangle := t, input_cursor := cur\<rparr>)
      } else Some (s\<lparr>current_triangle := best_triangle s\<rparr>))"

text \<open>Lines 233 to 296: the current triangle goes to the output and to the front of the cache
  list, and leaves the live counts and the adjacency.\<close>

definition emit_current ::
  "'s arith \<Rightarrow> bool \<Rightarrow> nat \<Rightarrow> nat list \<Rightarrow> ptr \<Rightarrow> nat \<Rightarrow> nat \<Rightarrow> 's vc_state \<Rightarrow> 's vc_state option" where
  "emit_current ar chk destination indices_copy indices face_count cache_size s = do {
     t \<leftarrow> current_triangle s;
     (abc, s) \<leftarrow> output_indices chk destination indices_copy indices face_count t ar s;
     s \<leftarrow> update_cache cache_size abc s;
     live \<leftarrow> update_live abc (live_triangles s);
     adj \<leftarrow> remove_emitted (deref (mem s) indices_copy indices) t (adjacency s);
     Some (s\<lparr>live_triangles := live, adjacency := adj\<rparr>)
   }"

text \<open>The body of the main loop, lines 233 to 343.\<close>

definition vc_iteration ::
  "'s::linorder arith \<Rightarrow> bool \<Rightarrow> nat \<Rightarrow> nat list \<Rightarrow> ptr \<Rightarrow> nat \<Rightarrow> nat \<Rightarrow> 's vc_state \<Rightarrow> 's vc_state option" where
  "vc_iteration ar chk destination indices_copy indices face_count cache_size s = do {
     s \<leftarrow> emit_current ar chk destination indices_copy indices face_count cache_size s;
     s \<leftarrow> update_scores ar chk cache_size s;
     next_triangle face_count s
   }"

definition initial_vertex_scores :: "'s arith \<Rightarrow> bool \<Rightarrow> nat list \<Rightarrow> nat \<Rightarrow> 's list option" where
  "initial_vertex_scores ar chk live vertex_count =
     for_loop [0..<vertex_count] (\<lambda>i vs. do {
         n \<leftarrow> rd live i;
         score \<leftarrow> vertexScore ar chk (-1) n;
         wr vs i score
       }) (replicate vertex_count (flit ar 0))"

definition initial_triangle_scores :: "'s arith \<Rightarrow> nat list \<Rightarrow> 's list \<Rightarrow> nat \<Rightarrow> 's list option" where
  "initial_triangle_scores ar idx vs face_count =
     for_loop [0..<face_count] (\<lambda>i ts. do {
         a \<leftarrow> rd idx (i * 3 + 0);
         b \<leftarrow> rd idx (i * 3 + 1);
         c \<leftarrow> rd idx (i * 3 + 2);
         sa \<leftarrow> rd vs a;
         sb \<leftarrow> rd vs b;
         sc \<leftarrow> rd vs c;
         wr ts i (fadd ar (fadd ar sa sb) sc)
       }) (replicate face_count (flit ar 0))"

text \<open>Lines 176 to 231: the local buffers and the state at the head of the main loop. The
  result is \<^verbatim>\<open>indices_copy\<close>, the pointer \<^verbatim>\<open>indices\<close> and the state.\<close>

definition vc_start ::
  "'s arith \<Rightarrow> bool \<Rightarrow> memory \<Rightarrow> nat \<Rightarrow> nat \<Rightarrow> nat \<Rightarrow> nat \<Rightarrow> (nat list \<times> ptr \<times> 's vc_state) option" where
  "vc_start ar chk m destination indices index_count vertex_count = do {
     (indices_copy, indices) \<leftarrow> support_in_place m destination indices index_count;
     let cache_size = 16;
     c_assert chk (cache_size \<le> max_cache_size);
     let face_count = index_count div 3;
     adj \<leftarrow> buildAdjacency chk (Adjacency_new index_count vertex_count)
              (deref m indices_copy indices) index_count vertex_count;
     live \<leftarrow> memcpy (triangle_counts adj) vertex_count;
     vs \<leftarrow> initial_vertex_scores ar chk live vertex_count;
     ts \<leftarrow> initial_triangle_scores ar (deref m indices_copy indices) vs face_count;
     Some (indices_copy, indices,
           \<lparr>mem = m, live_triangles = live,
            emitted_flags = replicate face_count False,
            input_cursor = 1, output_triangle = 0,
            adjacency = adj, vertex_scores = vs, triangle_scores = ts,
            cache = replicate (max_cache_size + 3) 0,
            cache_new = replicate (max_cache_size + 3) 0,
            cache_count = 0, cache_write = 0,
            current_triangle = Some 0,
            best_triangle = None, best_score = flit ar 0\<rparr>)
   }"

definition meshopt_optimizeVertexCache ::
  "'s::linorder arith \<Rightarrow> bool \<Rightarrow> memory \<Rightarrow> nat \<Rightarrow> nat \<Rightarrow> nat \<Rightarrow> nat \<Rightarrow> memory option" where
  "meshopt_optimizeVertexCache ar chk m destination indices index_count vertex_count = do {
     c_assert chk (index_count mod 3 = 0);
     if index_count = 0 \<or> vertex_count = 0 then Some m
     else do {
       (indices_copy, indices, s) \<leftarrow> vc_start ar chk m destination indices index_count vertex_count;
       s \<leftarrow> while_loop (\<lambda>s. current_triangle s \<noteq> None)
              (vc_iteration ar chk destination indices_copy indices (index_count div 3) 16) s;
       c_assert chk (input_cursor s = index_count div 3);
       c_assert chk (output_triangle s = index_count div 3);
       Some (mem s)
     }
   }"

section \<open>FIFO vertex cache reorderer\<close>

text \<open>Lines 432 to 441: a vertex that is not in the cache enters it.\<close>

definition cache_insert :: "32 word \<Rightarrow> nat \<Rightarrow> 32 word list \<times> 32 word \<Rightarrow> (32 word list \<times> 32 word) option" where
  "cache_insert cache_size v cts = (case cts of (ct, ts) \<Rightarrow> do {
     old \<leftarrow> rd ct v;
     if ts - old > cache_size then do {
       ct \<leftarrow> wr ct v ts;
       Some (ct, ts + 1)
     } else Some (ct, ts)
   })"

text \<open>Lines 409 to 445: one triangle of the neighbour list of the current vertex.\<close>

definition emit_neighbour ::
  "nat \<Rightarrow> nat list \<Rightarrow> ptr \<Rightarrow> 32 word \<Rightarrow> Adjacency \<Rightarrow> nat \<Rightarrow> fifo_state \<Rightarrow> fifo_state option" where
  "emit_neighbour destination indices_copy indices cache_size adj it s = do {
     triangle \<leftarrow> rd (data adj) it;
     e \<leftarrow> rd (emitted_flags s) triangle;
     if \<not> e then do {
       a \<leftarrow> rd (deref (mem s) indices_copy indices) (triangle * 3 + 0);
       b \<leftarrow> rd (deref (mem s) indices_copy indices) (triangle * 3 + 1);
       c \<leftarrow> rd (deref (mem s) indices_copy indices) (triangle * 3 + 2);
       m \<leftarrow> wr_mem (mem s) destination (output_triangle s * 3 + 0) a;
       m \<leftarrow> wr_mem m destination (output_triangle s * 3 + 1) b;
       m \<leftarrow> wr_mem m destination (output_triangle s * 3 + 2) c;
       de \<leftarrow> wr (dead_end s) (dead_end_top s + 0) a;
       de \<leftarrow> wr de (dead_end_top s + 1) b;
       de \<leftarrow> wr de (dead_end_top s + 2) c;
       live \<leftarrow> update_live (a, b, c) (live_triangles s);
       cts \<leftarrow> cache_insert cache_size a (cache_timestamps s, timestamp s);
       cts \<leftarrow> cache_insert cache_size b cts;
       (ct, ts) \<leftarrow> cache_insert cache_size c cts;
       ef \<leftarrow> wr (emitted_flags s) triangle True;
       Some (s\<lparr>mem := m, output_triangle := output_triangle s + 1,
               dead_end := de, dead_end_top := dead_end_top s + 3,
               live_triangles := live, cache_timestamps := ct, timestamp := ts,
               emitted_flags := ef\<rparr>)
     } else Some s
   }"

text \<open>Lines 451 to 457.\<close>

definition next_vertex :: "nat \<Rightarrow> nat \<Rightarrow> 32 word \<Rightarrow> fifo_state \<Rightarrow> fifo_state option" where
  "next_vertex vertex_count next_candidates_begin cache_size s = do {
     v \<leftarrow> getNextVertexNeighbour (dead_end s) next_candidates_begin (dead_end_top s)
            (live_triangles s) (cache_timestamps s) (timestamp s) cache_size;
     if v = None then do {
       (v, new_top, cur) \<leftarrow> getNextVertexDeadEnd (dead_end s) (dead_end_top s) (input_cursor s)
                          (live_triangles s) vertex_count;
       Some (s\<lparr>current_vertex := v, dead_end_top := new_top, input_cursor := cur\<rparr>)
     } else Some (s\<lparr>current_vertex := v\<rparr>)
   }"

text \<open>The body of the main loop, lines 400 to 458.\<close>

definition fifo_iteration ::
  "nat \<Rightarrow> nat list \<Rightarrow> ptr \<Rightarrow> nat \<Rightarrow> 32 word \<Rightarrow> Adjacency \<Rightarrow> fifo_state \<Rightarrow> fifo_state option" where
  "fifo_iteration destination indices_copy indices vertex_count cache_size adj s = do {
     v \<leftarrow> current_vertex s;
     let next_candidates_begin = dead_end_top s;
     neighbours_begin \<leftarrow> rd (offsets adj) v;
     neighbours_size \<leftarrow> rd (triangle_counts adj) v;
     s \<leftarrow> for_loop [neighbours_begin..<neighbours_begin + neighbours_size]
            (emit_neighbour destination indices_copy indices cache_size adj) s;
     next_vertex vertex_count next_candidates_begin cache_size s
   }"

definition meshopt_optimizeVertexCacheFifo ::
  "bool \<Rightarrow> memory \<Rightarrow> nat \<Rightarrow> nat \<Rightarrow> nat \<Rightarrow> nat \<Rightarrow> 32 word \<Rightarrow> memory option" where
  "meshopt_optimizeVertexCacheFifo chk m destination indices index_count vertex_count cache_size = do {
     c_assert chk (index_count mod 3 = 0);
     c_assert chk (cache_size \<ge> 3);
     if index_count = 0 \<or> vertex_count = 0 then Some m
     else do {
       (indices_copy, indices) \<leftarrow> support_in_place m destination indices index_count;
       let face_count = index_count div 3;
       adj \<leftarrow> buildAdjacency chk (Adjacency_new index_count vertex_count)
                (deref m indices_copy indices) index_count vertex_count;
       live \<leftarrow> memcpy (triangle_counts adj) vertex_count;
       s \<leftarrow> while_loop (\<lambda>s. current_vertex s \<noteq> None)
              (fifo_iteration destination indices_copy indices vertex_count cache_size adj)
              \<lparr>mem = m, live_triangles = live,
               emitted_flags = replicate face_count False,
               input_cursor = 1, output_triangle = 0,
               cache_timestamps = replicate vertex_count 0,
               dead_end = replicate index_count 0, dead_end_top = 0,
               current_vertex = Some 0, timestamp = cache_size + 1\<rparr>;
       c_assert chk (output_triangle s = face_count);
       Some (mem s)
     }
   }"

section \<open>Vocabulary of the properties\<close>




text \<open>\<open>first_best f xs x\<close>: \<open>x\<close> is the first element of \<open>xs\<close> at which \<open>f\<close> is largest.\<close>

definition first_best :: "('a \<Rightarrow> 'b::linorder) \<Rightarrow> 'a list \<Rightarrow> 'a \<Rightarrow> bool" where
  "first_best f xs x \<longleftrightarrow>
     (\<exists>k < length xs. xs ! k = x \<and> (\<forall>y \<in> set xs. f y \<le> f x) \<and> (\<forall>j < k. f (xs ! j) < f x))"

text \<open>\<open>corners idx n v\<close>: the positions below \<open>n\<close> of the index buffer that hold the vertex
  \<open>v\<close>; position \<open>j\<close> is a corner of the triangle \<open>j div 3\<close>. \<open>neighbours adj v\<close>: the adjacency
  list of \<open>v\<close>, the \<^verbatim>\<open>triangle_counts[v]\<close> entries of \<^verbatim>\<open>data\<close> from \<^verbatim>\<open>offsets[v]\<close> on.\<close>

definition corners :: "nat list \<Rightarrow> nat \<Rightarrow> nat \<Rightarrow> nat list" where
  "corners idx n v = filter (\<lambda>j. idx ! j = v) [0..<n]"

definition neighbours :: "Adjacency \<Rightarrow> nat \<Rightarrow> nat list" where
  "neighbours adj v = take (triangle_counts adj ! v) (drop (offsets adj ! v) (data adj))"

text \<open>A state of the reorderer for the examples.\<close>

definition example_vc_state :: "int vc_state" where
  "example_vc_state =
     \<lparr>mem = (\<lambda>_. []), live_triangles = [], emitted_flags = [],
      input_cursor = 1, output_triangle = 0,
      adjacency = Adjacency_new 0 0, vertex_scores = [], triangle_scores = [],
      cache = [5, 1, 7, 2] @ replicate 15 0,
      cache_new = replicate 19 0,
      cache_count = 4, cache_write = 0,
      current_triangle = Some 0,
      best_triangle = None, best_score = 0\<rparr>"

text \<open>The state of the third pass when the first \<open>j\<close> positions of the index buffer are done.\<close>

definition scattered :: "nat list \<Rightarrow> nat list \<Rightarrow> nat \<Rightarrow> nat \<Rightarrow> Adjacency \<Rightarrow> bool" where
  "scattered idx cs n j a \<longleftrightarrow>
     triangle_counts a = cs \<and> length (offsets a) = length cs \<and> length (data a) = n
     \<and> (\<forall>v < length cs. offsets a ! v = sum_list (take v cs) + length (corners idx j v))
     \<and> (\<forall>v < length cs. \<forall>k < length (corners idx j v).
            data a ! (sum_list (take v cs) + k) = (corners idx j v ! k) div 3)"

text \<open>What buildAdjacency returns on a valid index buffer.\<close>

definition adjacency_of :: "nat list \<Rightarrow> nat \<Rightarrow> nat \<Rightarrow> Adjacency \<Rightarrow> bool" where
  "adjacency_of idx n V adj \<longleftrightarrow>
     length (data adj) = n
     \<and> triangle_counts adj = map (\<lambda>v. length (corners idx n v)) [0..<V]
     \<and> offsets adj = map (\<lambda>v. sum_list (take v (triangle_counts adj))) [0..<V]
     \<and> (\<forall>v < V. neighbours adj v = map (\<lambda>j. j div 3) (corners idx n v))"

text \<open>The preconditions of the two optimizers on the index buffer: \<^verbatim>\<open>index_count\<close> is a multiple
  of 3 and every index is below \<^verbatim>\<open>vertex_count\<close>; the buffer holds \<^verbatim>\<open>index_count\<close> indices and the
  two counts fit an \<^verbatim>\<open>unsigned int\<close>.\<close>

definition valid_indices :: "nat list \<Rightarrow> nat \<Rightarrow> nat \<Rightarrow> bool" where
  "valid_indices indices index_count vertex_count \<longleftrightarrow>
     index_count mod 3 = 0 \<and> index_count \<le> length indices
     \<and> index_count < 2 ^ 32 \<and> vertex_count < 2 ^ 32
     \<and> (\<forall>v \<in> set (take index_count indices). v < vertex_count)"

text \<open>The three indices of the triangle \<open>t\<close> of an index buffer, and the triangles of a buffer.\<close>

definition tri :: "nat list \<Rightarrow> nat \<Rightarrow> nat list" where
  "tri idx t = [idx ! (3 * t), idx ! (3 * t + 1), idx ! (3 * t + 2)]"

definition triangles :: "nat list \<Rightarrow> nat \<Rightarrow> (nat \<times> nat \<times> nat) list" where
  "triangles xs F = map (\<lambda>t. (xs ! (3 * t), xs ! (3 * t + 1), xs ! (3 * t + 2))) [0..<F]"

text \<open>
  What both optimizers keep true of the memory \<open>m\<close>, the emitted flags \<open>ef\<close> and the number
  \<open>out\<close> of triangles written: the source still reads as \<open>idx\<close>, only the first \<open>3 * out\<close>
  entries of the destination differ from the initial memory \<open>m0\<close>, and they are the triangles
  with a set flag, each once, in some order.
\<close>

definition written ::
  "nat list \<Rightarrow> nat \<Rightarrow> memory \<Rightarrow> nat \<Rightarrow> nat list \<Rightarrow> ptr \<Rightarrow> memory \<Rightarrow> bool list \<Rightarrow> nat \<Rightarrow> bool" where
  "written idx F m0 dst cp ip m ef out \<longleftrightarrow>
     length ef = F
     \<and> take (3 * F) (deref m cp ip) = idx
     \<and> (\<forall>p. p \<noteq> dst \<longrightarrow> m p = m0 p) \<and> length (m dst) = length (m0 dst)
     \<and> drop (3 * out) (m dst) = drop (3 * out) (m0 dst)
     \<and> (\<exists>order. distinct order \<and> set order = {t. t < F \<and> ef ! t} \<and> out = length order
           \<and> take (3 * out) (m dst) = concat (map (tri idx) order))"

text \<open>\<open>pending ef idx F v\<close>: the number of corners of not yet emitted triangles at \<open>v\<close>, what
  \<^verbatim>\<open>live_triangles[v]\<close> has to be.\<close>

definition pending :: "bool list \<Rightarrow> nat list \<Rightarrow> nat \<Rightarrow> nat \<Rightarrow> nat" where
  "pending ef idx F v = length (filter (\<lambda>j. \<not> ef ! (j div 3)) (corners idx (3 * F) v))"

definition fifo_inv ::
  "nat list \<Rightarrow> nat \<Rightarrow> nat \<Rightarrow> memory \<Rightarrow> nat \<Rightarrow> nat list \<Rightarrow> ptr \<Rightarrow> fifo_state \<Rightarrow> bool" where
  "fifo_inv idx F V m0 dst cp ip s \<longleftrightarrow>
     written idx F m0 dst cp ip (mem s) (emitted_flags s) (output_triangle s)
     \<and> length (live_triangles s) = V \<and> length (cache_timestamps s) = V
     \<and> length (dead_end s) = 3 * F
     \<and> (\<forall>v < V. live_triangles s ! v = pending (emitted_flags s) idx F v)
     \<and> dead_end_top s \<le> 3 * output_triangle s
     \<and> (\<forall>p < dead_end_top s. dead_end s ! p < V)"

text \<open>The invariant of the main loop of the FIFO variant, and its measure.\<close>

definition fifo_outer ::
  "nat list \<Rightarrow> nat \<Rightarrow> nat \<Rightarrow> memory \<Rightarrow> nat \<Rightarrow> nat list \<Rightarrow> ptr \<Rightarrow> fifo_state \<Rightarrow> bool" where
  "fifo_outer idx F V m0 dst cp ip s \<longleftrightarrow>
     fifo_inv idx F V m0 dst cp ip s
     \<and> (\<forall>u < input_cursor s. u < V \<longrightarrow> live_triangles s ! u = 0 \<or> current_vertex s = Some u)
     \<and> (\<forall>v. current_vertex s = Some v \<longrightarrow> v < V)
     \<and> (current_vertex s = None \<longrightarrow> V \<le> input_cursor s)"

definition fifo_measure :: "nat \<Rightarrow> fifo_state \<Rightarrow> nat" where
  "fifo_measure F s =
     2 * (F - output_triangle s)
     + (case current_vertex s of
          Some v \<Rightarrow> if live_triangles s ! v = 0 then 1 else 0
        | None \<Rightarrow> 0)"

text \<open>\<open>reordered m destination indices index_count m'\<close>: the memory \<open>m'\<close> differs from \<open>m\<close> in the
  first \<open>index_count\<close> entries of the destination buffer only, and the triangles there are the
  triangles of the source buffer in \<open>m\<close>, each as often, in some order.\<close>

definition reordered :: "memory \<Rightarrow> nat \<Rightarrow> nat \<Rightarrow> nat \<Rightarrow> memory \<Rightarrow> bool" where
  "reordered m destination indices index_count m' \<longleftrightarrow>
     (\<forall>p. p \<noteq> destination \<longrightarrow> m' p = m p)
     \<and> length (m' destination) = length (m destination)
     \<and> drop index_count (m' destination) = drop index_count (m destination)
     \<and> mset (triangles (m' destination) (index_count div 3))
         = mset (triangles (m indices) (index_count div 3))"

text \<open>\<open>pending_at ef idx F v\<close>: the not yet emitted triangles at the vertex \<open>v\<close>, one for each
  of their corners at \<open>v\<close>.\<close>

definition pending_at :: "bool list \<Rightarrow> nat list \<Rightarrow> nat \<Rightarrow> nat \<Rightarrow> nat multiset" where
  "pending_at ef idx F v =
     image_mset (\<lambda>j. j div 3) (mset (filter (\<lambda>j. \<not> ef ! (j div 3)) (corners idx (3 * F) v)))"



text \<open>
  The score update of one iteration, lines 298 to 334, as a function of the state: what the
  loops of \<open>update_scores\<close> compute when no read, write or assertion fails. \<open>sweep_events\<close>
  lists, in the order of the sweep, the triangles met and the score \<^verbatim>\<open>tri_score\<close> each gets
  there.
\<close>

definition vertex_score :: "'s arith \<Rightarrow> int \<Rightarrow> nat \<Rightarrow> 's" where
  "vertex_score ar pos n =
     fadd ar (flit ar (vertex_score_table_cache ! nat (1 + pos)))
             (flit ar (vertex_score_table_live ! (if n < max_valence then n else max_valence)))"

definition position_of :: "nat \<Rightarrow> nat \<Rightarrow> int" where
  "position_of cs i = (if i \<ge> cs then -1 else int i)"

definition triangle_result :: "'s::linorder arith \<Rightarrow> 's \<Rightarrow> nat \<Rightarrow> 's vc_state \<Rightarrow> 's vc_state" where
  "triangle_result ar d t s =
     (let tri_score = fadd ar (triangle_scores s ! t) d;
          s = (if best_score s < tri_score
               then s\<lparr>best_triangle := Some t, best_score := tri_score\<rparr> else s)
      in s\<lparr>triangle_scores := (triangle_scores s)[t := tri_score]\<rparr>)"

definition score_diff_of :: "'s arith \<Rightarrow> nat \<Rightarrow> nat \<Rightarrow> 's vc_state \<Rightarrow> 's" where
  "score_diff_of ar cs i s =
     fsub ar (vertex_score ar (position_of cs i) (live_triangles s ! (cache s ! i)))
             (vertex_scores s ! (cache s ! i))"

definition rescored :: "'s arith \<Rightarrow> nat \<Rightarrow> nat \<Rightarrow> 's vc_state \<Rightarrow> 's vc_state" where
  "rescored ar cs i s =
     s\<lparr>vertex_scores := (vertex_scores s)
          [cache s ! i := vertex_score ar (position_of cs i) (live_triangles s ! (cache s ! i))]\<rparr>"

definition vertex_result :: "'s::linorder arith \<Rightarrow> nat \<Rightarrow> nat \<Rightarrow> 's vc_state \<Rightarrow> 's vc_state" where
  "vertex_result ar cs i s =
     fold (triangle_result ar (score_diff_of ar cs i s))
       (neighbours (adjacency s) (cache s ! i)) (rescored ar cs i s)"

definition scores_result :: "'s::linorder arith \<Rightarrow> nat \<Rightarrow> 's vc_state \<Rightarrow> 's vc_state" where
  "scores_result ar cs s =
     fold (vertex_result ar cs) [0..<cache_write s] (s\<lparr>best_triangle := None, best_score := flit ar 0\<rparr>)"

fun triangle_events :: "'s::linorder arith \<Rightarrow> 's \<Rightarrow> nat list \<Rightarrow> 's vc_state \<Rightarrow> (nat \<times> 's) list" where
  "triangle_events ar d [] s = []"
| "triangle_events ar d (t # ts) s =
     (t, fadd ar (triangle_scores s ! t) d) # triangle_events ar d ts (triangle_result ar d t s)"

definition vertex_events :: "'s::linorder arith \<Rightarrow> nat \<Rightarrow> nat \<Rightarrow> 's vc_state \<Rightarrow> (nat \<times> 's) list" where
  "vertex_events ar cs i s =
     triangle_events ar (score_diff_of ar cs i s) (neighbours (adjacency s) (cache s ! i)) (rescored ar cs i s)"

fun events_from :: "'s::linorder arith \<Rightarrow> nat \<Rightarrow> nat list \<Rightarrow> 's vc_state \<Rightarrow> (nat \<times> 's) list" where
  "events_from ar cs [] s = []"
| "events_from ar cs (i # is) s = vertex_events ar cs i s @ events_from ar cs is (vertex_result ar cs i s)"

definition sweep_events :: "'s::linorder arith \<Rightarrow> nat \<Rightarrow> 's vc_state \<Rightarrow> (nat \<times> 's) list" where
  "sweep_events ar cs s =
     events_from ar cs [0..<cache_write s] (s\<lparr>best_triangle := None, best_score := flit ar 0\<rparr>)"

text \<open>What the sweep needs of the state to run: buffer sizes, cache entries that are
  vertices, neighbour lists inside the adjacency data that hold pending triangles only.\<close>

definition sweep_ready :: "nat \<Rightarrow> nat \<Rightarrow> 's vc_state \<Rightarrow> bool" where
  "sweep_ready F V s \<longleftrightarrow>
     length (emitted_flags s) = F \<and> length (triangle_scores s) = F
     \<and> length (live_triangles s) = V \<and> length (vertex_scores s) = V
     \<and> length (offsets (adjacency s)) = V \<and> length (triangle_counts (adjacency s)) = V
     \<and> cache_write s \<le> length (cache s) \<and> (\<forall>i < cache_write s. cache s ! i < V)
     \<and> (\<forall>v < V. offsets (adjacency s) ! v + triangle_counts (adjacency s) ! v \<le> length (data (adjacency s))
            \<and> (\<forall>t \<in> set (neighbours (adjacency s) v). t < F \<and> \<not> emitted_flags s ! t))"

text \<open>\<open>scores_only s s'\<close>: the state \<open>s'\<close> differs from \<open>s\<close> in the scores and in the best
  triangle only.\<close>

definition scores_only :: "'s vc_state \<Rightarrow> 's vc_state \<Rightarrow> bool" where
  "scores_only s s' \<longleftrightarrow>
     s' = s\<lparr>vertex_scores := vertex_scores s', triangle_scores := triangle_scores s',
            best_triangle := best_triangle s', best_score := best_score s'\<rparr>
     \<and> length (vertex_scores s') = length (vertex_scores s)
     \<and> length (triangle_scores s') = length (triangle_scores s)"

text \<open>The running maximum of lines 326 to 330 over a list of events, from a start value.\<close>

definition running_best :: "(nat \<times> 's::linorder) list \<Rightarrow> nat option \<times> 's \<Rightarrow> nat option \<times> 's" where
  "running_best evs b0 = fold (\<lambda>e b. if snd b < snd e then (Some (fst e), snd e) else b) evs b0"



text \<open>A state of the greedy reorderer at line 298, in the run on the triangles \<open>(0,1,2)\<close>,
  \<open>(0,1,3)\<close>, \<open>(0,1,4)\<close> after the first of them is emitted.\<close>

definition example_sweep_state :: "int vc_state" where
  "example_sweep_state =
     \<lparr>mem = (\<lambda>_. []), live_triangles = [2, 2, 0, 1, 1], emitted_flags = [True, False, False],
      input_cursor = 1, output_triangle = 1,
      adjacency = \<lparr>triangle_counts = [2, 2, 0, 1, 1], offsets = [0, 3, 6, 7, 8],
                   data = [2, 1, 2, 2, 1, 2, 0, 1, 2]\<rparr>,
      vertex_scores = [479, 479, 994, 994, 994], triangle_scores = [0, 1952, 1952],
      cache = [0, 1, 2] @ replicate 16 0,
      cache_new = replicate 19 0,
      cache_count = 3, cache_write = 3,
      current_triangle = Some 0,
      best_triangle = None, best_score = 0\<rparr>"




section \<open>Buffers and loops: basic facts\<close>

lemma rd_Some [simp]: "i < length xs \<Longrightarrow> rd xs i = Some (xs ! i)"
  by (simp add: rd_def)

lemma rd_eq_Some: "rd xs i = Some v \<longleftrightarrow> i < length xs \<and> xs ! i = v"
  by (auto simp: rd_def)

lemma rd_eq_None: "rd xs i = None \<longleftrightarrow> length xs \<le> i"
  by (auto simp: rd_def)

lemma wr_Some [simp]: "i < length xs \<Longrightarrow> wr xs i v = Some (xs[i := v])"
  by (simp add: wr_def)

lemma wr_eq_Some: "wr xs i v = Some ys \<longleftrightarrow> i < length xs \<and> ys = xs[i := v]"
  by (auto simp: wr_def)

lemma c_assert_Some [simp]: "c \<Longrightarrow> c_assert chk c = Some ()"
  by (simp add: c_assert_def)

lemma c_assert_False [simp]: "c_assert False c = Some ()"
  by (simp add: c_assert_def)

lemma for_loop_append:
  "for_loop (xs @ ys) body s = (case for_loop xs body s of None \<Rightarrow> None | Some s' \<Rightarrow> for_loop ys body s')"
  by (induction xs arbitrary: s) (auto split: option.splits)

text \<open>Total correctness of a counting loop, from an invariant indexed by the counter.\<close>

lemma for_loop_rule:
  assumes "P a s" and "a \<le> b"
    and "\<And>i s. a \<le> i \<Longrightarrow> i < b \<Longrightarrow> P i s \<Longrightarrow> \<exists>s'. body i s = Some s' \<and> P (Suc i) s'"
  shows "\<exists>s'. for_loop [a..<b] body s = Some s' \<and> P b s'"
  using assms(2,3)
proof (induction b)
  case 0
  with assms(1) show ?case by simp
next
  case (Suc b)
  show ?case
  proof (cases "a = Suc b")
    case True
    with assms(1) show ?thesis by simp
  next
    case False
    with Suc.prems have ab: "a \<le> b" by simp
    from Suc.IH [OF ab] Suc.prems(2) obtain s1 where s1: "for_loop [a..<b] body s = Some s1" "P b s1"
      by (metis less_Suc_eq)
    from Suc.prems(2) [OF ab _ s1(2)] obtain s2 where s2: "body b s1 = Some s2" "P (Suc b) s2"
      by auto
    from ab s1 s2 show ?thesis
      by (simp add: for_loop_append)
  qed
qed

lemma take_Suc_update:
  "n < length xs \<Longrightarrow> take (Suc n) (xs[n := v]) = take n xs @ [v]"
  by (simp add: take_Suc_conv_app_nth)

section \<open>The scoring tables\<close>

text \<open>
  The table entries are \<^verbatim>\<open>float\<close> literals with three decimals; rounding a decimal to the
  nearest \<^verbatim>\<open>float\<close> is monotone and keeps these values apart, so the entries compare as their
  thousandths do.
\<close>

text \<open>
  Claim C6, as stated: the live-valence table is decreasing, that is the entry at \<open>i\<close> is at
  least the entry at \<open>j\<close> for all live counts \<open>i < j\<close> in \<open>0..8\<close>. It is not: the entry for 6
  live triangles (0.080) is below the entry for 7 (0.249).
\<close>

theorem live_table_not_decreasing:
  "\<not> (vertex_score_table_live ! 6 \<ge> vertex_score_table_live ! 7)"
  by (simp add: vertex_score_table_live_def)

text \<open>
  Claim C6, amended: the table has 9 entries; the entry at \<open>i\<close> is at least the entry at \<open>j\<close>
  for all live counts \<open>1 \<le> i < j \<le> 8\<close> except the pairs \<open>(5, 7)\<close> and \<open>(6, 7)\<close>, where it is
  smaller; the entry for no live triangle is 0, below all the others.
\<close>

theorem live_table_order:
  "length vertex_score_table_live = 9
   \<and> (\<forall>i j. 1 \<le> i \<and> i < j \<and> j \<le> 8 \<and> (i, j) \<noteq> (5, 7) \<and> (i, j) \<noteq> (6, 7)
         \<longrightarrow> vertex_score_table_live ! i \<ge> vertex_score_table_live ! j)
   \<and> vertex_score_table_live ! 5 < vertex_score_table_live ! 7
   \<and> vertex_score_table_live ! 6 < vertex_score_table_live ! 7
   \<and> vertex_score_table_live ! 0 = 0
   \<and> (\<forall>j. 1 \<le> j \<and> j \<le> 8 \<longrightarrow> vertex_score_table_live ! 0 < vertex_score_table_live ! j)"
proof -
  have "vertex_score_table_live ! i \<ge> vertex_score_table_live ! j"
    if a: "1 \<le> i \<and> i < j \<and> j \<le> 8 \<and> (i, j) \<noteq> (5, 7) \<and> (i, j) \<noteq> (6, 7)" for i j :: nat
  proof -
    from a have "j \<in> {2, 3, 4, 5, 6, 7, 8}" by auto
    moreover from a have "i \<in> {1, 2, 3, 4, 5, 6, 7}" by auto
    ultimately show ?thesis
      using a by (auto simp: vertex_score_table_live_def)
  qed
  moreover have "vertex_score_table_live ! 0 < vertex_score_table_live ! j"
    if a: "1 \<le> j \<and> j \<le> 8" for j :: nat
  proof -
    from a have "j \<in> {1, 2, 3, 4, 5, 6, 7, 8}" by auto
    then show ?thesis
      by (auto simp: vertex_score_table_live_def)
  qed
  ultimately show ?thesis
    by (simp add: vertex_score_table_live_def)
qed

theorem live_table_order_witness:
  "(1::nat) \<le> 2 \<and> (2::nat) < 5 \<and> (5::nat) \<le> 8 \<and> vertex_score_table_live ! 2 \<ge> vertex_score_table_live ! 5
   \<and> vertex_score_table_live ! 0 < vertex_score_table_live ! 8"
proof -
  from live_table_order
  have 1: "1 \<le> i \<and> i < j \<and> j \<le> 8 \<and> (i, j) \<noteq> (5, 7) \<and> (i, j) \<noteq> (6, 7)
         \<Longrightarrow> vertex_score_table_live ! i \<ge> vertex_score_table_live ! j"
    and 2: "1 \<le> j \<and> j \<le> 8 \<Longrightarrow> vertex_score_table_live ! 0 < vertex_score_table_live ! j"
    for i j by blast+
  from 1 [of 2 5] 2 [of 8] show ?thesis by simp
qed

section \<open>Empty meshes\<close>

text \<open>
  Claim C9: for both optimizers, if \<^verbatim>\<open>index_count == 0\<close> or \<^verbatim>\<open>vertex_count == 0\<close> the call
  returns at once and writes nothing: the whole memory, the destination buffer with it, is as
  before. With assertions compiled in, the preconditions that are asserted before the guard
  (\<^verbatim>\<open>index_count % 3 == 0\<close>, and \<^verbatim>\<open>cache_size >= 3\<close> for the FIFO variant) have to hold.
\<close>

theorem empty_mesh_is_noop:
  assumes "index_count = 0 \<or> vertex_count = 0"
    and "chk \<longrightarrow> index_count mod 3 = 0 \<and> cache_size \<ge> 3"
  shows "meshopt_optimizeVertexCache ar chk m destination indices index_count vertex_count = Some m
       \<and> meshopt_optimizeVertexCacheFifo chk m destination indices index_count vertex_count cache_size = Some m"
  using assms
  by (auto simp: meshopt_optimizeVertexCache_def meshopt_optimizeVertexCacheFifo_def c_assert_def)

theorem empty_mesh_is_noop_witness:
  "((0::nat) = 0 \<or> (5::nat) = 0) \<and> (0::nat) mod 3 = 0 \<and> (16::32 word) \<ge> 3
   \<and> meshopt_optimizeVertexCache exact_ar True (\<lambda>_. [7, 8, 9]) 1 2 0 5 = Some (\<lambda>_. [7, 8, 9])
   \<and> meshopt_optimizeVertexCacheFifo True (\<lambda>_. [7, 8, 9]) 1 2 0 5 16 = Some (\<lambda>_. [7, 8, 9])"
  using empty_mesh_is_noop [of 0 5 True 16 exact_ar "\<lambda>_. [7, 8, 9]" 1 2] by simp

section \<open>The cache list of the greedy reorderer\<close>

lemma take3_update:
  assumes "3 \<le> length xs"
  shows "take 3 (xs[0 := a, Suc 0 := b, 2 := c]) = [a, b, c]"
proof -
  from assms obtain x xs1 where 1: "xs = x # xs1" by (cases xs) auto
  with assms obtain y xs2 where 2: "xs1 = y # xs2" by (cases xs1) auto
  with 1 assms obtain z xs3 where 3: "xs2 = z # xs3" by (cases xs2) auto
  show ?thesis by (simp add: 1 2 3 numeral_3_eq_3)
qed

lemma update_cache_loop:
  fixes s0 :: "'s vc_state" and a b c :: nat
  assumes len: "length (cache s0) = 19" "length (cache_new s0) = 19" and cc: "cache_count s0 \<le> 16"
    and cn: "take 3 (cache_new s0) = [a, b, c]" and cw: "cache_write s0 = 3"
  defines "keep \<equiv> \<lambda>index. index \<noteq> a \<and> index \<noteq> b \<and> index \<noteq> c"
  shows "\<exists>cn. for_loop [0..<cache_count s0] (\<lambda>i s. do {
         index \<leftarrow> rd (cache s) i;
         if index \<noteq> a \<and> index \<noteq> b \<and> index \<noteq> c then do {
           cn \<leftarrow> wr (cache_new s) (cache_write s) index;
           Some (s\<lparr>cache_new := cn, cache_write := cache_write s + 1\<rparr>)
         } else Some s
       }) s0 = Some (s0\<lparr>cache_new := cn, cache_write := 3 + length (filter keep (take (cache_count s0) (cache s0)))\<rparr>)
       \<and> length cn = 19
       \<and> take (3 + length (filter keep (take (cache_count s0) (cache s0)))) cn
           = [a, b, c] @ filter keep (take (cache_count s0) (cache s0))"
proof -
  let ?body = "\<lambda>i s. do {
         index \<leftarrow> rd (cache s) i;
         if index \<noteq> a \<and> index \<noteq> b \<and> index \<noteq> c then do {
           cn \<leftarrow> wr (cache_new s) (cache_write s) index;
           Some (s\<lparr>cache_new := cn, cache_write := cache_write s + 1\<rparr>)
         } else Some s
       }"
  define kept where "kept i = filter keep (take i (cache s0))" for i
  define P where "P i s \<longleftrightarrow> (\<exists>cn. s = s0\<lparr>cache_new := cn, cache_write := 3 + length (kept i)\<rparr>
      \<and> length cn = 19 \<and> take (3 + length (kept i)) cn = [a, b, c] @ kept i)" for i s
  have kept_le: "length (kept i) \<le> i" for i
    unfolding kept_def by (rule order_trans [OF length_filter_le]) simp
  have kept_Suc: "kept (Suc i) = kept i @ (if keep (cache s0 ! i) then [cache s0 ! i] else [])"
    if "i < cache_count s0" for i
    using that len cc by (simp add: kept_def take_Suc_conv_app_nth)
  have "P 0 s0"
    using len cn cw by (auto simp: P_def kept_def intro!: exI [of _ "cache_new s0"])
  moreover have "\<exists>s'. ?body i s = Some s' \<and> P (Suc i) s'" if "i < cache_count s0" "P i s" for i s
  proof -
    from that(2) obtain cn where s: "s = s0\<lparr>cache_new := cn, cache_write := 3 + length (kept i)\<rparr>"
      and l: "length cn = 19" and t: "take (3 + length (kept i)) cn = [a, b, c] @ kept i"
      by (auto simp: P_def)
    have i: "i < length (cache s0)" using that(1) len cc by simp
    have w: "3 + length (kept i) < length cn" using kept_le [of i] that(1) cc l by simp
    show ?thesis
    proof (cases "keep (cache s0 ! i)")
      case True
      have "take (3 + length (kept (Suc i))) (cn[3 + length (kept i) := cache s0 ! i])
              = [a, b, c] @ kept (Suc i)"
        using True w t kept_Suc [OF that(1)] take_Suc_update [of "3 + length (kept i)" cn "cache s0 ! i"]
        by simp
      with True i w l show ?thesis
        unfolding P_def s using kept_Suc [OF that(1)]
        by (auto simp: keep_def intro!: exI [of _ "cn[3 + length (kept i) := cache s0 ! i]"])
    next
      case False
      with i l t show ?thesis
        unfolding P_def s using kept_Suc [OF that(1)]
        by (auto simp: keep_def)
    qed
  qed
  ultimately have "\<exists>s'. for_loop [0..<cache_count s0] ?body s0 = Some s' \<and> P (cache_count s0) s'"
    by (intro for_loop_rule) auto
  then show ?thesis
    by (auto simp: P_def kept_def)
qed

lemma update_cache_spec:
  fixes s :: "'s vc_state" and a b c :: nat
  assumes len: "length (cache s) = 19" "length (cache_new s) = 19" and cc: "cache_count s \<le> 16"
  defines "kept \<equiv> filter (\<lambda>index. index \<noteq> a \<and> index \<noteq> b \<and> index \<noteq> c) (take (cache_count s) (cache s))"
  shows "\<exists>cn. update_cache 16 (a, b, c) s =
            Some (s\<lparr>cache := cn, cache_new := cache s, cache_write := 3 + length kept,
                    cache_count := min (3 + length kept) 16\<rparr>)
          \<and> length cn = 19 \<and> take (3 + length kept) cn = [a, b, c] @ kept"
proof -
  define s0 where "s0 = s\<lparr>cache_new := (cache_new s)[0 := a, Suc 0 := b, 2 := c], cache_write := 3\<rparr>"
  have s0: "cache s0 = cache s" "cache_count s0 = cache_count s" "length (cache_new s0) = 19"
    "cache_write s0 = 3"
    using len by (simp_all add: s0_def)
  have t3: "take 3 (cache_new s0) = [a, b, c]"
    using len(2) by (simp add: s0_def take3_update)
  from update_cache_loop [of s0 a b c, unfolded s0(1,2), OF len(1) s0(3) cc t3 s0(4)]
  obtain cn where cn: "for_loop [0..<cache_count s] (\<lambda>i s. do {
         index \<leftarrow> rd (cache s) i;
         if index \<noteq> a \<and> index \<noteq> b \<and> index \<noteq> c then do {
           cn \<leftarrow> wr (cache_new s) (cache_write s) index;
           Some (s\<lparr>cache_new := cn, cache_write := cache_write s + 1\<rparr>)
         } else Some s
       }) s0 = Some (s0\<lparr>cache_new := cn, cache_write := 3 + length kept\<rparr>)"
       "length cn = 19" "take (3 + length kept) cn = [a, b, c] @ kept"
    unfolding kept_def by blast
  have "update_cache 16 (a, b, c) s =
            Some (s\<lparr>cache := cn, cache_new := cache s, cache_write := 3 + length kept,
                    cache_count := min (3 + length kept) 16\<rparr>)"
    using len cn(1) by (simp add: update_cache_def s0_def min_def)
  with cn(2,3) show ?thesis
    by blast
qed

text \<open>
  Claim C2: in an iteration of the greedy reorderer the cache list becomes the list that starts
  with the three vertices of the triangle just emitted, in the order \<open>a\<close>, \<open>b\<close>, \<open>c\<close>,
  followed by the entries of the previous cache (its first \<^verbatim>\<open>cache_count\<close> entries) that are none
  of the three, in their previous order; the new \<^verbatim>\<open>cache_count\<close> is the length of that list cut
  at the capacity 16. \<open>update_cache\<close> is the step of \<open>vc_iteration\<close> that does it; the two
  arrays hold \<open>max_cache_size + 3\<close> entries each.
\<close>

theorem update_cache_new_list:
  fixes s :: "'s vc_state"
  assumes "length (cache s) = max_cache_size + 3" "length (cache_new s) = max_cache_size + 3"
    and "cache_count s \<le> 16"
  shows "\<exists>s'. update_cache 16 (a, b, c) s = Some s'
     \<and> take (cache_write s') (cache s') =
         [a, b, c] @ filter (\<lambda>index. index \<noteq> a \<and> index \<noteq> b \<and> index \<noteq> c) (take (cache_count s) (cache s))
     \<and> cache_count s' = min (cache_write s') 16
     \<and> take (cache_count s') (cache s') =
         take 16 ([a, b, c] @ filter (\<lambda>index. index \<noteq> a \<and> index \<noteq> b \<and> index \<noteq> c) (take (cache_count s) (cache s)))"
proof -
  define kept where "kept = filter (\<lambda>index. index \<noteq> a \<and> index \<noteq> b \<and> index \<noteq> c) (take (cache_count s) (cache s))"
  have len: "length (cache s) = 19" "length (cache_new s) = 19"
    using assms by (simp_all add: max_cache_size_def)
  from update_cache_spec [OF len assms(3), of a b c, folded kept_def]
  obtain cn where cn: "update_cache 16 (a, b, c) s =
            Some (s\<lparr>cache := cn, cache_new := cache s, cache_write := 3 + length kept,
                    cache_count := min (3 + length kept) 16\<rparr>)"
    "take (3 + length kept) cn = [a, b, c] @ kept"
    by blast
  have "take (min (3 + length kept) 16) cn = take 16 (take (3 + length kept) cn)"
    by (simp add: min.commute)
  with cn show ?thesis
    unfolding kept_def [symmetric] by simp
qed

theorem update_cache_new_list_witness:
  "length (cache example_vc_state) = max_cache_size + 3
   \<and> length (cache_new example_vc_state) = max_cache_size + 3
   \<and> cache_count example_vc_state \<le> 16
   \<and> (\<exists>s'. update_cache 16 (1, 2, 3) example_vc_state = Some s'
        \<and> take (cache_write s') (cache s') = [1, 2, 3, 5, 7]
        \<and> cache_count s' = min (cache_write s') 16
        \<and> take (cache_count s') (cache s') = [1, 2, 3, 5, 7])"
proof -
  have h: "length (cache example_vc_state) = max_cache_size + 3"
    "length (cache_new example_vc_state) = max_cache_size + 3"
    "cache_count example_vc_state \<le> 16"
    by (simp_all add: example_vc_state_def max_cache_size_def)
  from update_cache_new_list [OF h, of 1 2 3] h show ?thesis
    by (simp add: example_vc_state_def)
qed

section \<open>Neighbour selection of the FIFO variant\<close>














section \<open>What buildAdjacency computes\<close>

subsection \<open>Positions of a vertex in the index buffer\<close>

lemma corners_0 [simp]: "corners idx 0 v = []"
  by (simp add: corners_def)

lemma corners_Suc:
  "corners idx (Suc j) v = corners idx j v @ (if idx ! j = v then [j] else [])"
  by (simp add: corners_def)

lemma length_corners_mono: "j \<le> n \<Longrightarrow> length (corners idx j v) \<le> length (corners idx n v)"
proof (induction n)
  case 0
  then show ?case by simp
next
  case (Suc n)
  then show ?case
    by (cases "j = Suc n") (auto simp: corners_Suc)
qed

lemma length_corners_less:
  assumes "j < n" "idx ! j = v"
  shows "length (corners idx j v) < length (corners idx n v)"
proof -
  have "length (corners idx (Suc j) v) \<le> length (corners idx n v)"
    using assms(1) by (intro length_corners_mono) simp
  with assms(2) show ?thesis
    by (simp add: corners_Suc)
qed

lemma set_corners: "set (corners idx n v) = {j. j < n \<and> idx ! j = v}"
  by (auto simp: corners_def)

lemma corners_prefix:
  "j \<le> n \<Longrightarrow> k < length (corners idx j v) \<Longrightarrow> corners idx n v ! k = corners idx j v ! k"
proof (induction n)
  case 0
  then show ?case by simp
next
  case (Suc n)
  show ?case
  proof (cases "j = Suc n")
    case True
    then show ?thesis by simp
  next
    case False
    with Suc.prems have jn: "j \<le> n" by simp
    from length_corners_mono [OF jn] Suc.prems(2) have "k < length (corners idx n v)"
      by (rule_tac less_le_trans)
    with Suc.IH [OF jn Suc.prems(2)] show ?thesis
      by (simp add: corners_Suc nth_append)
  qed
qed

lemma sum_length_corners:
  assumes "\<forall>j < n. idx ! j < V"
  shows "sum_list (map (\<lambda>v. length (corners idx n v)) [0..<V]) = n"
  using assms
proof (induction n)
  case 0
  then show ?case by (simp add: sum_list_0)
next
  case (Suc n)
  then have IH: "sum_list (map (\<lambda>v. length (corners idx n v)) [0..<V]) = n"
    and v: "idx ! n < V"
    by simp_all
  have "sum_list (map (\<lambda>v. length (corners idx (Suc n) v)) [0..<V])
      = sum_list (map (\<lambda>v. length (corners idx n v)) [0..<V])
        + sum_list (map (\<lambda>v. if idx ! n = v then 1 else 0) [0..<V])"
  proof -
    have "length (corners idx (Suc n) v) = length (corners idx n v) + (if idx ! n = v then 1 else 0)" for v
      by (simp add: corners_Suc)
    then show ?thesis
      by (simp add: sum_list_addf)
  qed
  moreover have "sum_list (map (\<lambda>v. if idx ! n = v then 1 else 0) [0..<V]) = (1::nat)"
    using v by (induction V) auto
  ultimately show ?case
    using IH by simp
qed

subsection \<open>Prefix sums\<close>

lemma sum_list_take_Suc:
  "v < length cs \<Longrightarrow> sum_list (take (Suc v) cs) = sum_list (take v cs) + (cs ! v :: nat)"
  by (simp add: take_Suc_conv_app_nth)

lemma sum_list_take_mono:
  "v \<le> w \<Longrightarrow> sum_list (take v cs) \<le> sum_list (take w (cs :: nat list))"
proof (induction cs arbitrary: v w)
  case Nil
  then show ?case by simp
next
  case (Cons c cs)
  then show ?case
    by (cases v; cases w) auto
qed

lemma segment_end_le:
  assumes "v < length cs"
  shows "sum_list (take v cs) + cs ! v \<le> sum_list (cs :: nat list)"
proof -
  have "sum_list (take (Suc v) cs) \<le> sum_list (take (length cs) cs)"
    using assms by (intro sum_list_take_mono) simp
  with assms show ?thesis
    by (simp add: sum_list_take_Suc)
qed

lemma segments_disjoint:
  assumes "v < w" "w < length cs"
  shows "sum_list (take v cs) + cs ! v \<le> sum_list (take w (cs :: nat list))"
proof -
  have "sum_list (take (Suc v) cs) \<le> sum_list (take w cs)"
    using assms by (intro sum_list_take_mono) simp
  with assms show ?thesis
    by (simp add: sum_list_take_Suc)
qed


subsection \<open>The four passes of buildAdjacency\<close>

lemma fill_triangle_counts_spec:
  assumes len: "length (triangle_counts adj) = V" and n: "n \<le> length idx"
    and rng: "\<forall>j < n. idx ! j < V"
  shows "fill_triangle_counts chk idx n V adj =
           Some (adj\<lparr>triangle_counts := map (\<lambda>v. length (corners idx n v)) [0..<V]\<rparr>)"
proof -
  let ?zero = "\<lambda>i adjacency. do {
         tc \<leftarrow> wr (triangle_counts adjacency) i 0;
         Some (adjacency\<lparr>triangle_counts := tc\<rparr>) }"
  let ?count = "\<lambda>i adjacency. do {
         v \<leftarrow> rd idx i;
         c_assert chk (v < V);
         n \<leftarrow> rd (triangle_counts adjacency) v;
         tc \<leftarrow> wr (triangle_counts adjacency) v (n + 1);
         Some (adjacency\<lparr>triangle_counts := tc\<rparr>) }"
  define P where "P i a \<longleftrightarrow> (\<exists>tc. a = adj\<lparr>triangle_counts := tc\<rparr> \<and> length tc = V \<and> (\<forall>u < i. tc ! u = 0))"
    for i a
  have "\<exists>a. for_loop [0..<V] ?zero adj = Some a \<and> P V a"
  proof (rule for_loop_rule)
    show "P 0 adj" using len by (auto simp: P_def intro!: exI [of _ "triangle_counts adj"])
  next
    fix i a assume i: "i < V" and "P i a"
    then obtain tc where a: "a = adj\<lparr>triangle_counts := tc\<rparr>" and tc: "length tc = V" "\<forall>u < i. tc ! u = 0"
      by (auto simp: P_def)
    have "P (Suc i) (adj\<lparr>triangle_counts := tc[i := 0]\<rparr>)"
      unfolding P_def using tc i
      by (intro exI [of _ "tc[i := 0]"]) (auto simp: less_Suc_eq nth_list_update)
    with i tc show "\<exists>a'. ?zero i a = Some a' \<and> P (Suc i) a'"
      by (simp add: a)
  qed simp
  then obtain tc where 1: "for_loop [0..<V] ?zero adj = Some (adj\<lparr>triangle_counts := tc\<rparr>)"
    and tc: "length tc = V" "\<forall>u < V. tc ! u = 0"
    by (auto simp: P_def)
  have tc0: "tc = map (\<lambda>v. length (corners idx 0 v)) [0..<V]"
    using tc by (auto intro!: nth_equalityI)
  define Q where "Q i a \<longleftrightarrow> a = adj\<lparr>triangle_counts := map (\<lambda>v. length (corners idx i v)) [0..<V]\<rparr>"
    for i a
  have "\<exists>a. for_loop [0..<n] ?count (adj\<lparr>triangle_counts := tc\<rparr>) = Some a \<and> Q n a"
  proof (rule for_loop_rule)
    show "Q 0 (adj\<lparr>triangle_counts := tc\<rparr>)" using tc0 by (simp add: Q_def)
  next
    fix i a assume i: "i < n" and "Q i a"
    then have a: "a = adj\<lparr>triangle_counts := map (\<lambda>v. length (corners idx i v)) [0..<V]\<rparr>"
      by (simp add: Q_def)
    have v: "idx ! i < V" "i < length idx" using i rng n by auto
    have "(map (\<lambda>v. length (corners idx i v)) [0..<V])[idx ! i := Suc (length (corners idx i (idx ! i)))]
        = map (\<lambda>v. length (corners idx (Suc i) v)) [0..<V]"
      using v by (auto intro!: nth_equalityI simp: nth_list_update corners_Suc)
    with v show "\<exists>a'. ?count i a = Some a' \<and> Q (Suc i) a'"
      by (simp add: a Q_def)
  qed simp
  with 1 show ?thesis
    by (simp add: fill_triangle_counts_def Q_def)
qed

lemma fill_offset_table_spec:
  assumes len: "length (offsets adj) = V" "length (triangle_counts adj) = V"
    and tot: "sum_list (triangle_counts adj) = n"
  shows "fill_offset_table chk n V adj =
           Some (adj\<lparr>offsets := map (\<lambda>v. sum_list (take v (triangle_counts adj))) [0..<V]\<rparr>)"
proof -
  let ?cs = "triangle_counts adj"
  let ?body = "\<lambda>i (adjacency, offset). do {
         os \<leftarrow> wr (offsets adjacency) i offset;
         n \<leftarrow> rd (triangle_counts adjacency) i;
         Some (adjacency\<lparr>offsets := os\<rparr>, offset + n) }"
  define P where "P i st \<longleftrightarrow> (\<exists>os. st = (adj\<lparr>offsets := os\<rparr>, sum_list (take i ?cs)) \<and> length os = V
       \<and> (\<forall>u < i. os ! u = sum_list (take u ?cs)))" for i st
  have "\<exists>st. for_loop [0..<V] ?body (adj, 0) = Some st \<and> P V st"
  proof (rule for_loop_rule)
    show "P 0 (adj, 0)" using len by (auto simp: P_def intro!: exI [of _ "offsets adj"])
  next
    fix i st assume i: "i < V" and "P i st"
    then obtain os where st: "st = (adj\<lparr>offsets := os\<rparr>, sum_list (take i ?cs))" and os: "length os = V"
      "\<forall>u < i. os ! u = sum_list (take u ?cs)"
      by (auto simp: P_def)
    show "\<exists>st'. ?body i st = Some st' \<and> P (Suc i) st'"
      using i os len unfolding st P_def
      by (auto simp: sum_list_take_Suc less_Suc_eq nth_list_update
               intro!: exI [of _ "os[i := sum_list (take i ?cs)]"])
  qed simp
  then obtain os where 1: "for_loop [0..<V] ?body (adj, 0) = Some (adj\<lparr>offsets := os\<rparr>, sum_list (take V ?cs))"
    and os: "length os = V" "\<forall>u < V. os ! u = sum_list (take u ?cs)"
    by (auto simp: P_def)
  have "os = map (\<lambda>v. sum_list (take v ?cs)) [0..<V]"
    using os by (auto intro!: nth_equalityI)
  with 1 len tot show ?thesis
    by (simp add: fill_offset_table_def)
qed

lemma scatter_step:
  assumes sc: "scattered idx cs n j a" and j: "j < n"
    and cs: "cs = map (\<lambda>v. length (corners idx n v)) [0..<V]" "sum_list cs = n"
    and rng: "idx ! j < V"
  shows "\<exists>a'. scatter (idx ! j) (j div 3) a = Some a' \<and> scattered idx cs n (Suc j) a'"
proof -
  let ?v = "idx ! j"
  let ?st = "\<lambda>v. sum_list (take v cs)"
  let ?o = "?st ?v + length (corners idx j ?v)"
  have V: "length cs = V" by (simp add: cs)
  have cv: "cs ! v = length (corners idx n v)" if "v < V" for v
    using that by (simp add: cs)
  have fill: "length (corners idx j ?v) < cs ! ?v"
    using length_corners_less [OF j refl, of idx] rng by (simp add: cv)
  have "?st ?v + cs ! ?v \<le> n"
    using segment_end_le [of ?v cs] rng V cs(2) by simp
  with fill have on: "?o < n" by simp
  from sc have a: "triangle_counts a = cs" "length (offsets a) = V" "length (data a) = n"
    "\<And>v. v < V \<Longrightarrow> offsets a ! v = ?st v + length (corners idx j v)"
    "\<And>v k. v < V \<Longrightarrow> k < length (corners idx j v) \<Longrightarrow> data a ! (?st v + k) = (corners idx j v ! k) div 3"
    by (auto simp: scattered_def V)
  define a' where "a' = a\<lparr>offsets := (offsets a)[?v := ?o + 1], data := (data a)[?o := j div 3]\<rparr>"
  have 1: "scatter ?v (j div 3) a = Some a'"
    using rng a(2,3) a(4) [OF rng] on by (simp add: scatter_def a'_def)
  have other: "?st v + k \<noteq> ?o" if "v < V" "v \<noteq> ?v" "k < length (corners idx j v)" for v k
  proof -
    have kv: "k < cs ! v"
      using that(3) length_corners_mono [of j n idx v] j cv [OF that(1)] by simp
    show ?thesis
    proof (cases "v < ?v")
      case True
      from segments_disjoint [OF True, of cs] rng V have "?st v + cs ! v \<le> ?st ?v" by simp
      with kv show ?thesis by simp
    next
      case False
      with that(2) have lt: "?v < v" by simp
      from segments_disjoint [OF lt, of cs] that(1) V have "?st ?v + cs ! ?v \<le> ?st v" by simp
      with fill show ?thesis by simp
    qed
  qed
  have "data a' ! (?st v + k) = (corners idx (Suc j) v ! k) div 3"
    if "v < V" "k < length (corners idx (Suc j) v)" for v k
  proof (cases "v = ?v")
    case True
    show ?thesis
    proof (cases "k < length (corners idx j ?v)")
      case True
      with \<open>v = ?v\<close> a(5) [OF rng True] on a(3) show ?thesis
        by (simp add: a'_def corners_Suc nth_append)
    next
      case False
      with that(2) \<open>v = ?v\<close> have "k = length (corners idx j ?v)"
        by (simp add: corners_Suc)
      with \<open>v = ?v\<close> on a(3) show ?thesis
        by (simp add: a'_def corners_Suc nth_append)
    qed
  next
    case False
    with that have k: "k < length (corners idx j v)" by (auto simp: corners_Suc)
    from other [OF that(1) False k] a(5) [OF that(1) k] False show ?thesis
      by (auto simp: a'_def corners_Suc)
  qed
  moreover have "offsets a' ! v = ?st v + length (corners idx (Suc j) v)" if "v < V" for v
    using that a(2) a(4) [OF that] by (auto simp: a'_def nth_list_update corners_Suc)
  ultimately have "scattered idx cs n (Suc j) a'"
    unfolding scattered_def using a(1,2,3) V by (simp add: a'_def)
  with 1 show ?thesis by blast
qed

lemma fill_triangle_data_spec:
  assumes sc: "scattered idx cs (3 * F) 0 adj"
    and cs: "cs = map (\<lambda>v. length (corners idx (3 * F) v)) [0..<V]" "sum_list cs = 3 * F"
    and n: "3 * F \<le> length idx" and rng: "\<forall>j < 3 * F. idx ! j < V"
  shows "\<exists>a. fill_triangle_data idx F adj = Some a \<and> scattered idx cs (3 * F) (3 * F) a"
  unfolding fill_triangle_data_def
proof (rule for_loop_rule [where P = "\<lambda>i a. scattered idx cs (3 * F) (3 * i) a"])
  show "scattered idx cs (3 * F) (3 * 0) adj" using sc by simp
next
  fix i s assume i: "i < F" and a: "scattered idx cs (3 * F) (3 * i) s"
  have j: "3 * i < 3 * F" "Suc (3 * i) < 3 * F" "Suc (Suc (3 * i)) < 3 * F"
    using i by simp_all
  have d: "(3 * i) div 3 = i" "Suc (3 * i) div 3 = i" "Suc (Suc (3 * i)) div 3 = i"
    by simp_all
  from scatter_step [OF a j(1) cs] rng j(1) d(1)
  obtain a1 where 1: "scatter (idx ! (3 * i)) i s = Some a1" "scattered idx cs (3 * F) (Suc (3 * i)) a1"
    by auto
  from scatter_step [OF 1(2) j(2) cs] rng j(2) d(2)
  obtain a2 where 2: "scatter (idx ! Suc (3 * i)) i a1 = Some a2" "scattered idx cs (3 * F) (Suc (Suc (3 * i))) a2"
    by auto
  from scatter_step [OF 2(2) j(3) cs] rng j(3) d(3)
  obtain a3 where 3: "scatter (idx ! Suc (Suc (3 * i))) i a2 = Some a3" "scattered idx cs (3 * F) (Suc (Suc (Suc (3 * i)))) a3"
    by auto
  have e: "3 * Suc i = Suc (Suc (Suc (3 * i)))" by simp
  have r: "rd idx (i * 3 + 0) = Some (idx ! (3 * i))" "rd idx (i * 3 + 1) = Some (idx ! Suc (3 * i))"
    "rd idx (i * 3 + 2) = Some (idx ! Suc (Suc (3 * i)))"
    using j n by (simp_all add: mult.commute)
  from 1 2 3 show "\<exists>s'. (do {
         a \<leftarrow> rd idx (i * 3 + 0);
         b \<leftarrow> rd idx (i * 3 + 1);
         c \<leftarrow> rd idx (i * 3 + 2);
         adjacency \<leftarrow> scatter a i s;
         adjacency \<leftarrow> scatter b i adjacency;
         scatter c i adjacency
       }) = Some s' \<and> scattered idx cs (3 * F) (3 * Suc i) s'"
    unfolding r e by simp
qed simp


lemma sub32_exact:
  assumes "y \<le> x" "x < 2 ^ 32"
  shows "sub32 x y = x - y"
proof -
  have "x + 2 ^ 32 - y = (x - y) + 2 ^ 32"
    using assms(1) by simp
  moreover have "x - y < 2 ^ 32"
    using assms(2) by simp
  ultimately show ?thesis
    unfolding sub32_def by (simp only: mod_add_self2 mod_less)
qed

lemma fix_offsets_spec:
  assumes sc: "scattered idx cs n n adj"
    and cs: "cs = map (\<lambda>v. length (corners idx n v)) [0..<V]" "sum_list cs = n"
    and n32: "n < 2 ^ 32"
  shows "fix_offsets chk V adj = Some (adj\<lparr>offsets := map (\<lambda>v. sum_list (take v cs)) [0..<V]\<rparr>)"
proof -
  let ?st = "\<lambda>v. sum_list (take v cs)"
  let ?body = "\<lambda>i adjacency. do {
         off \<leftarrow> rd (offsets adjacency) i;
         n \<leftarrow> rd (triangle_counts adjacency) i;
         c_assert chk (off \<ge> n);
         os \<leftarrow> wr (offsets adjacency) i (sub32 off n);
         Some (adjacency\<lparr>offsets := os\<rparr>) }"
  have V: "length cs = V" by (simp add: cs)
  have cv: "cs ! v = length (corners idx n v)" if "v < V" for v
    using that by (simp add: cs)
  from sc have a: "triangle_counts adj = cs" "length (offsets adj) = V"
    "\<And>v. v < V \<Longrightarrow> offsets adj ! v = ?st v + cs ! v"
    by (auto simp: scattered_def V cv)
  define P where "P i a \<longleftrightarrow> (\<exists>os. a = adj\<lparr>offsets := os\<rparr> \<and> length os = V
      \<and> (\<forall>u < i. os ! u = ?st u) \<and> (\<forall>u < V. i \<le> u \<longrightarrow> os ! u = ?st u + cs ! u))" for i a
  have "\<exists>a. for_loop [0..<V] ?body adj = Some a \<and> P V a"
  proof (rule for_loop_rule)
    show "P 0 adj" using a by (auto simp: P_def intro!: exI [of _ "offsets adj"])
  next
    fix i s assume i: "i < V" and "P i s"
    then obtain os where s: "s = adj\<lparr>offsets := os\<rparr>" and os: "length os = V"
      "\<forall>u < i. os ! u = ?st u" "\<forall>u < V. i \<le> u \<longrightarrow> os ! u = ?st u + cs ! u"
      by (auto simp: P_def)
    have oi: "os ! i = ?st i + cs ! i" using os(3) i by simp
    have "?st i + cs ! i \<le> n" using segment_end_le [of i cs] i V cs(2) by simp
    with n32 have "sub32 (?st i + cs ! i) (cs ! i) = ?st i"
      by (subst sub32_exact) simp_all
    moreover have "P (Suc i) (adj\<lparr>offsets := os[i := ?st i]\<rparr>)"
      unfolding P_def using os i
      by (intro exI [of _ "os[i := ?st i]"]) (auto simp: less_Suc_eq nth_list_update)
    ultimately show "\<exists>s'. ?body i s = Some s' \<and> P (Suc i) s'"
      using i os(1) oi a(1) V by (simp add: s)
  qed simp
  then obtain os where 1: "for_loop [0..<V] ?body adj = Some (adj\<lparr>offsets := os\<rparr>)"
    and os: "length os = V" "\<forall>u < V. os ! u = ?st u"
    by (auto simp: P_def)
  have "os = map ?st [0..<V]"
    using os by (auto intro!: nth_equalityI)
  with 1 show ?thesis
    by (simp add: fix_offsets_def)
qed

lemma buildAdjacency_spec:
  assumes n: "n mod 3 = 0" "n \<le> length idx" "n < 2 ^ 32" and rng: "\<forall>j < n. idx ! j < V"
  shows "\<exists>adj. buildAdjacency chk (Adjacency_new n V) idx n V = Some adj \<and> adjacency_of idx n V adj"
proof -
  define F where "F = n div 3"
  have nF: "n = 3 * F" using n(1) by (auto simp: F_def)
  define cs where "cs = map (\<lambda>v. length (corners idx n v)) [0..<V]"
  have tot: "sum_list cs = n" unfolding cs_def using rng by (rule sum_length_corners)
  have V: "length cs = V" by (simp add: cs_def)
  define a1 where "a1 = (Adjacency_new n V)\<lparr>triangle_counts := cs\<rparr>"
  define a2 where "a2 = a1\<lparr>offsets := map (\<lambda>v. sum_list (take v cs)) [0..<V]\<rparr>"
  have 1: "fill_triangle_counts chk idx n V (Adjacency_new n V) = Some a1"
    unfolding a1_def cs_def using n(2) rng
    by (intro fill_triangle_counts_spec) (simp_all add: Adjacency_new_def)
  have 2: "fill_offset_table chk n V a1 = Some a2"
    using fill_offset_table_spec [of a1 V n chk] tot V
    by (simp add: a1_def a2_def Adjacency_new_def)
  have "scattered idx cs n 0 a2"
    by (simp add: scattered_def a2_def a1_def Adjacency_new_def V)
  with fill_triangle_data_spec [of idx cs F a2 V] tot n(2) rng
  obtain a3 where 3: "fill_triangle_data idx F a2 = Some a3" and sc: "scattered idx cs n n a3"
    by (auto simp: nF cs_def)
  define a4 where "a4 = a3\<lparr>offsets := map (\<lambda>v. sum_list (take v cs)) [0..<V]\<rparr>"
  have 4: "fix_offsets chk V a3 = Some a4"
    unfolding a4_def using sc _ tot n(3) by (rule fix_offsets_spec) (simp add: cs_def)
  have a4: "triangle_counts a4 = cs" "length (data a4) = n"
    "\<And>v k. v < V \<Longrightarrow> k < length (corners idx n v) \<Longrightarrow>
        data a4 ! (sum_list (take v cs) + k) = (corners idx n v ! k) div 3"
    using sc by (auto simp: scattered_def a4_def V)
  have "neighbours a4 v = map (\<lambda>j. j div 3) (corners idx n v)" if v: "v < V" for v
  proof -
    have "sum_list (take v cs) + cs ! v \<le> n"
      using segment_end_le [of v cs] v V tot by simp
    moreover have "cs ! v = length (corners idx n v)" using v by (simp add: cs_def)
    ultimately show ?thesis
      unfolding neighbours_def using v a4
      by (auto intro!: nth_equalityI simp: a4_def)
  qed
  then have "adjacency_of idx n V a4"
    using a4(1,2) by (simp add: adjacency_of_def a4_def cs_def)
  moreover have "buildAdjacency chk (Adjacency_new n V) idx n V = Some a4"
    using 1 2 3 4 by (simp add: buildAdjacency_def F_def)
  ultimately show ?thesis by blast
qed


lemma valid_indices_nth:
  "valid_indices idx n V \<Longrightarrow> j < n \<Longrightarrow> idx ! j < V"
proof -
  assume v: "valid_indices idx n V" and j: "j < n"
  then have "take n idx ! j \<in> set (take n idx)"
    by (intro nth_mem) (simp add: valid_indices_def)
  with v j show ?thesis
    by (simp add: valid_indices_def)
qed

lemma concat_segments_from:
  "off + sum_list cs \<le> length xs \<Longrightarrow>
   concat (map (\<lambda>v. take (cs ! v) (drop (off + sum_list (take v cs)) xs)) [0..<length cs])
     = take (sum_list cs) (drop off xs)"
proof (induction cs arbitrary: off)
  case Nil
  then show ?case by simp
next
  case (Cons c cs)
  have "map (\<lambda>v. take ((c # cs) ! v) (drop (off + sum_list (take v (c # cs))) xs)) [0..<length (c # cs)]
      = take c (drop off xs) # map (\<lambda>v. take (cs ! v) (drop ((off + c) + sum_list (take v cs)) xs)) [0..<length cs]"
  proof -
    have "[0..<length (c # cs)] = 0 # map Suc [0..<length cs]"
      by (simp add: upt_conv_Cons map_Suc_upt del: upt_Suc)
    then show ?thesis
      by (simp add: add.assoc comp_def del: upt_Suc)
  qed
  moreover have "concat (map (\<lambda>v. take (cs ! v) (drop ((off + c) + sum_list (take v cs)) xs)) [0..<length cs])
      = take (sum_list cs) (drop (off + c) xs)"
    using Cons.prems by (intro Cons.IH) simp
  ultimately show ?case
    by (simp add: take_add add.commute)
qed

lemma count_list_concat:
  "count_list (concat xss) x = sum_list (map (\<lambda>xs. count_list xs x) xss)"
  by (induction xss) simp_all

lemma count_list_map_filter:
  "count_list (map f xs) y = length (filter (\<lambda>x. f x = y) xs)"
  by (induction xs) simp_all

lemma sum_list_indicator:
  "sum_list (map (\<lambda>v. if a = v then c else 0) [0..<V]) = (if a < V then c else (0::nat))"
  by (induction V) auto

lemma sum_length_filter_corners:
  assumes "\<forall>j < n. idx ! j < V"
  shows "sum_list (map (\<lambda>v. length (filter Q (corners idx n v))) [0..<V]) = length (filter Q [0..<n])"
  using assms
proof (induction n)
  case 0
  then show ?case by (simp add: sum_list_0)
next
  case (Suc n)
  then have IH: "sum_list (map (\<lambda>v. length (filter Q (corners idx n v))) [0..<V]) = length (filter Q [0..<n])"
    and v: "idx ! n < V"
    by simp_all
  have "length (filter Q (corners idx (Suc n) v))
      = length (filter Q (corners idx n v)) + (if idx ! n = v then (if Q n then 1 else 0) else 0)" for v
    by (simp add: corners_Suc)
  then have "sum_list (map (\<lambda>v. length (filter Q (corners idx (Suc n) v))) [0..<V])
      = sum_list (map (\<lambda>v. length (filter Q (corners idx n v))) [0..<V])
        + sum_list (map (\<lambda>v. if idx ! n = v then (if Q n then 1 else 0) else 0) [0..<V])"
    by (simp add: sum_list_addf)
  moreover have "sum_list (map (\<lambda>v. if idx ! n = v then (if Q n then 1 else 0) else 0) [0..<V])
      = (if Q n then 1 else (0::nat))"
    using v by (simp only: sum_list_indicator if_True)
  ultimately show ?case
    using IH by simp
qed

lemma filter_triangle_positions:
  "filter (\<lambda>j. j div 3 = i) [0..<3 * F] = (if i < F then [3 * i, 3 * i + 1, 3 * i + 2] else [])"
proof (induction F)
  case 0
  then show ?case by simp
next
  case (Suc F)
  have "3 * Suc F = Suc (Suc (Suc (3 * F)))"
    by simp
  then have "[0..<3 * Suc F] = [0..<3 * F] @ [3 * F, 3 * F + 1, 3 * F + 2]"
    by (simp only: upt_Suc) simp
  moreover have "(3 * F) div 3 = F" "(3 * F + 1) div 3 = F" "(3 * F + 2) div 3 = F"
    by simp_all
  ultimately show ?case
    using Suc by (auto simp del: upt_Suc)
qed

lemma corner_count:
  assumes "i < F"
  shows "length (filter (\<lambda>j. j div 3 = i) (corners idx (3 * F) v))
       = length (filter (\<lambda>k. idx ! (3 * i + k) = v) [0..<3])"
proof -
  have "filter (\<lambda>j. j div 3 = i) (corners idx (3 * F) v)
      = filter (\<lambda>j. idx ! j = v) (filter (\<lambda>j. j div 3 = i) [0..<3 * F])"
    by (simp add: corners_def conj_commute)
  also have "\<dots> = filter (\<lambda>j. idx ! j = v) [3 * i, 3 * i + 1, 3 * i + 2]"
    using assms by (simp only: filter_triangle_positions if_True)
  also have "length \<dots> = length (filter (\<lambda>k. idx ! (3 * i + k) = v) [0, 1, 2])"
    by simp
  also have "[0, 1, 2] = [0..<3]"
    by (simp add: numeral_3_eq_3)
  finally show ?thesis .
qed

lemma adjacency_of_counts:
  assumes adj: "adjacency_of idx (3 * F) V adj" and rng: "\<forall>j < 3 * F. idx ! j < V"
  shows "sum_list (triangle_counts adj) = 3 * F"
    and "data adj = concat (map (neighbours adj) [0..<V])"
    and "i < F \<Longrightarrow> v < V \<Longrightarrow>
           count_list (neighbours adj v) i = length (filter (\<lambda>k. idx ! (3 * i + k) = v) [0..<3])"
    and "i < F \<Longrightarrow> count_list (data adj) i = 3"
proof -
  let ?cs = "triangle_counts adj"
  from adj have a: "length (data adj) = 3 * F" "?cs = map (\<lambda>v. length (corners idx (3 * F) v)) [0..<V]"
    "offsets adj = map (\<lambda>v. sum_list (take v ?cs)) [0..<V]"
    "\<And>v. v < V \<Longrightarrow> neighbours adj v = map (\<lambda>j. j div 3) (corners idx (3 * F) v)"
    by (auto simp: adjacency_of_def)
  show tot: "sum_list ?cs = 3 * F"
    unfolding a(2) using rng by (rule sum_length_corners)
  have V: "length ?cs = V" by (simp add: a(2))
  have "concat (map (\<lambda>v. take (?cs ! v) (drop (0 + sum_list (take v ?cs)) (data adj))) [0..<length ?cs])
      = take (sum_list ?cs) (drop 0 (data adj))"
    by (rule concat_segments_from) (simp add: tot a(1))
  moreover have "map (\<lambda>v. take (?cs ! v) (drop (0 + sum_list (take v ?cs)) (data adj))) [0..<length ?cs]
      = map (neighbours adj) [0..<V]"
    unfolding V by (rule map_cong) (simp_all add: neighbours_def a(3))
  ultimately show cc: "data adj = concat (map (neighbours adj) [0..<V])"
    using tot a(1) by simp
  show nb: "count_list (neighbours adj v) i = length (filter (\<lambda>k. idx ! (3 * i + k) = v) [0..<3])"
    if "i < F" "v < V" for i v
    using that by (simp add: a(4) count_list_map_filter corner_count)
  show "count_list (data adj) i = 3" if i: "i < F"
  proof -
    have "count_list (data adj) i = sum_list (map (\<lambda>v. count_list (neighbours adj v) i) [0..<V])"
      by (subst cc) (simp add: count_list_concat comp_def)
    also have "\<dots> = sum_list (map (\<lambda>v. length (filter (\<lambda>j. j div 3 = i) (corners idx (3 * F) v))) [0..<V])"
      by (rule arg_cong [where f = sum_list], rule map_cong) (simp_all add: a(4) count_list_map_filter)
    also have "\<dots> = length (filter (\<lambda>j. j div 3 = i) [0..<3 * F])"
      using rng by (rule sum_length_filter_corners)
    also have "\<dots> = 3"
      using i by (simp only: filter_triangle_positions if_True) simp
    finally show ?thesis .
  qed
qed

text \<open>
  Claim C5: on an index buffer of \<open>3 * F\<close> indices, all below \<^verbatim>\<open>vertex_count\<close>, buildAdjacency
  returns, the per-vertex triangle counts add up to \<open>3 * F\<close>, and every triangle \<open>i < F\<close> occurs
  exactly 3 times in the flat adjacency data, within the ranges of its three corners: the
  adjacency list of a vertex \<open>v\<close> holds \<open>i\<close> once for each corner of \<open>i\<close> that is \<open>v\<close>, and the
  flat data is the concatenation of the adjacency lists. A triangle with three different
  corners is so in exactly three adjacency lists; one that repeats a vertex is as many times
  in the list of that vertex.
\<close>

theorem buildAdjacency_counts:
  assumes "valid_indices indices index_count vertex_count"
  shows "\<exists>adj. buildAdjacency chk (Adjacency_new index_count vertex_count) indices index_count vertex_count = Some adj
     \<and> sum_list (triangle_counts adj) = 3 * (index_count div 3)
     \<and> (\<forall>i < index_count div 3. count_list (data adj) i = 3)
     \<and> (\<forall>i < index_count div 3. \<forall>v < vertex_count.
           count_list (neighbours adj v) i = length (filter (\<lambda>k. indices ! (3 * i + k) = v) [0..<3]))
     \<and> data adj = concat (map (neighbours adj) [0..<vertex_count])"
proof -
  define F where "F = index_count div 3"
  from assms have n: "index_count = 3 * F" "index_count mod 3 = 0" "index_count \<le> length indices"
    "index_count < 2 ^ 32"
    by (auto simp: valid_indices_def F_def)
  have rng: "\<forall>j < index_count. indices ! j < vertex_count"
    using valid_indices_nth [OF assms] by blast
  from buildAdjacency_spec [OF n(2,3,4) rng, of chk]
  obtain adj where adj: "buildAdjacency chk (Adjacency_new index_count vertex_count) indices index_count vertex_count = Some adj"
    "adjacency_of indices (3 * F) vertex_count adj"
    unfolding n(1) [symmetric] by blast
  from adjacency_of_counts [OF adj(2)] rng adj(1) show ?thesis
    unfolding F_def [symmetric] n(1) [symmetric] by (simp add: n(1))
qed

theorem buildAdjacency_counts_witness:
  "valid_indices [0, 1, 2, 0, 2, 3] 6 4
   \<and> (\<exists>adj. buildAdjacency True (Adjacency_new 6 4) [0, 1, 2, 0, 2, 3] 6 4 = Some adj
        \<and> sum_list (triangle_counts adj) = 3 * (6 div 3)
        \<and> count_list (data adj) 1 = 3
        \<and> count_list (neighbours adj 2) 1 = length (filter (\<lambda>k. [0, 1, 2, 0, 2, 3] ! (3 * 1 + k) = (2::nat)) [0..<3]))"
proof -
  have h: "valid_indices [0, 1, 2, 0, 2, 3] 6 4"
    by (simp add: valid_indices_def)
  from buildAdjacency_counts [OF h, of True] h show ?thesis
    by fastforce
qed

section \<open>The FIFO variant: termination and output\<close>

subsection \<open>Total correctness of a while loop\<close>

lemma while_loop_rule:
  assumes "I s"
    and "\<And>s. I s \<Longrightarrow> cond s \<Longrightarrow> \<exists>s'. body s = Some s' \<and> I s' \<and> m s' < (m s :: nat)"
  shows "\<exists>s'. while_loop cond body s = Some s' \<and> I s' \<and> \<not> cond s'"
  using assms(1)
proof (induction "m s" arbitrary: s rule: less_induct)
  case less
  show ?case
  proof (cases "cond s")
    case False
    with less.prems show ?thesis
      by (subst while_loop.simps) simp
  next
    case True
    from assms(2) [OF less.prems True] obtain s1 where s1: "body s = Some s1" "I s1" "m s1 < m s"
      by blast
    from less.hyps [OF s1(3) s1(2)] obtain s2 where "while_loop cond body s1 = Some s2" "I s2" "\<not> cond s2"
      by blast
    with True s1(1) show ?thesis
      by (subst while_loop.simps) simp
  qed
qed

subsection \<open>Dead ends\<close>

lemma check_dead_end_stack_spec:
  assumes "tp \<le> length de" "\<forall>p < tp. de ! p < length live"
  shows "\<exists>r tp1. check_dead_end_stack de tp live = Some (r, tp1) \<and> tp1 \<le> tp
           \<and> (\<forall>v. r = Some v \<longrightarrow> v < length live \<and> live ! v > 0)"
  using assms
proof (induction tp)
  case 0
  then show ?case by simp
next
  case (Suc tp)
  then have r: "tp < length de" "de ! tp < length live" by auto
  show ?case
  proof (cases "live ! (de ! tp) > 0")
    case True
    with r show ?thesis by simp
  next
    case False
    from Suc.IH Suc.prems obtain r' tp1 where "check_dead_end_stack de tp live = Some (r', tp1)"
      "tp1 \<le> tp" "\<forall>v. r' = Some v \<longrightarrow> v < length live \<and> live ! v > 0"
      by auto
    with False r show ?thesis by simp
  qed
qed

lemma vertex_input_order_spec:
  assumes "length live = V"
  shows "\<exists>r c'. vertex_input_order c live V = Some (r, c') \<and> c \<le> c'
           \<and> (\<forall>u. c \<le> u \<and> u < c' \<longrightarrow> live ! u = 0)
           \<and> (case r of Some v \<Rightarrow> v = c' \<and> v < V \<and> live ! v > 0 | None \<Rightarrow> V \<le> c')"
  using assms
proof (induction c live V rule: vertex_input_order.induct)
  case (1 c live V)
  show ?case
  proof (cases "c < V")
    case False
    then show ?thesis
      by (subst vertex_input_order.simps) simp
  next
    case True
    show ?thesis
    proof (cases "live ! c > 0")
      case pos: True
      with True 1(2) show ?thesis
        by (subst vertex_input_order.simps) simp
    next
      case zero: False
      from True 1(2) have rd: "rd live c = Some (live ! c)" by simp
      from "1.IH" [OF True rd _ "1.prems"] zero
      obtain r c' where IH: "vertex_input_order (c + 1) live V = Some (r, c')" "c + 1 \<le> c'"
        "\<forall>u. c + 1 \<le> u \<and> u < c' \<longrightarrow> live ! u = 0"
        "case r of Some v \<Rightarrow> v = c' \<and> v < V \<and> live ! v > 0 | None \<Rightarrow> V \<le> c'"
        by auto
      have "\<forall>u. c \<le> u \<and> u < c' \<longrightarrow> live ! u = 0"
      proof (intro allI impI)
        fix u assume "c \<le> u \<and> u < c'"
        with IH(3) zero show "live ! u = 0"
          by (cases "u = c") auto
      qed
      with IH True zero rd show ?thesis
        by (subst vertex_input_order.simps) auto
    qed
  qed
qed

lemma getNextVertexDeadEnd_spec:
  assumes "tp \<le> length de" "\<forall>p < tp. de ! p < length live" "length live = V"
  shows "\<exists>r tp1 c'. getNextVertexDeadEnd de tp c live V = Some (r, tp1, c')
           \<and> tp1 \<le> tp \<and> c \<le> c' \<and> (\<forall>u. c \<le> u \<and> u < c' \<longrightarrow> live ! u = 0)
           \<and> (case r of Some v \<Rightarrow> v < V \<and> live ! v > 0 | None \<Rightarrow> V \<le> c')"
proof -
  from check_dead_end_stack_spec [OF assms(1,2)]
  obtain r tp1 where 1: "check_dead_end_stack de tp live = Some (r, tp1)" "tp1 \<le> tp"
    "\<forall>v. r = Some v \<longrightarrow> v < length live \<and> live ! v > 0"
    by blast
  show ?thesis
  proof (cases r)
    case (Some v)
    with 1 assms(3) show ?thesis
      by (simp add: getNextVertexDeadEnd_def)
  next
    case None
    from vertex_input_order_spec [OF assms(3), of c]
    obtain r2 c' where 2: "vertex_input_order c live V = Some (r2, c')" "c \<le> c'"
      "\<forall>u. c \<le> u \<and> u < c' \<longrightarrow> live ! u = 0"
      "case r2 of Some v \<Rightarrow> v = c' \<and> v < V \<and> live ! v > 0 | None \<Rightarrow> V \<le> c'"
      by blast
    with 1 None show ?thesis
      by (auto simp: getNextVertexDeadEnd_def split: option.splits)
  qed
qed

subsection \<open>The neighbour selection returns a live candidate or nothing\<close>

lemma getNextVertexNeighbour_sound:
  assumes be: "b \<le> e" "e \<le> length de"
    and rng: "\<forall>p. b \<le> p \<and> p < e \<longrightarrow> de ! p < length live \<and> de ! p < length cts"
  shows "\<exists>r. getNextVertexNeighbour de b e live cts ts cs = Some r
           \<and> (\<forall>v. r = Some v \<longrightarrow> v < length live \<and> live ! v > 0)"
proof -
  define P where "P i st \<longleftrightarrow> (\<forall>v. fst st = Some v \<longrightarrow> v < length live \<and> live ! v > 0)"
    for i :: nat and st :: "nat option \<times> int"
  have "\<exists>st. for_loop [b..<e] (next_candidate de live cts ts cs) (None, -1) = Some st \<and> P e st"
  proof (rule for_loop_rule)
    show "P b (None, -1)" by (simp add: P_def)
  next
    fix i st assume i: "b \<le> i" "i < e" and st: "P i st"
    with be rng have r: "i < length de" "de ! i < length live" "de ! i < length cts"
      by auto
    with st show "\<exists>st'. next_candidate de live cts ts cs i st = Some st' \<and> P (Suc i) st'"
      by (auto simp: P_def next_candidate_def Let_def split: prod.splits)
  qed (rule be)
  with be show ?thesis
    by (auto simp: getNextVertexNeighbour_def P_def)
qed

subsection \<open>Live triangle counts\<close>

lemma sub32_1: "0 < x \<Longrightarrow> x < 2 ^ 32 \<Longrightarrow> sub32 x 1 = x - 1"
  by (rule sub32_exact) simp_all

lemma update_live_spec:
  assumes len: "a < length live" "b < length live" "c < length live"
    and enough: "\<forall>v < length live. count_list [a, b, c] v \<le> live ! v"
    and bound: "\<forall>v < length live. live ! v < 2 ^ 32"
  shows "\<exists>live'. update_live (a, b, c) live = Some live' \<and> length live' = length live
           \<and> (\<forall>v < length live. live' ! v = live ! v - count_list [a, b, c] v)"
proof -
  define l1 where "l1 = live[a := live ! a - 1]"
  define l2 where "l2 = l1[b := l1 ! b - 1]"
  define l3 where "l3 = l2[c := l2 ! c - 1]"
  have e: "count_list [a, b, c] a \<le> live ! a" "count_list [a, b, c] b \<le> live ! b"
    "count_list [a, b, c] c \<le> live ! c"
    using enough len by blast+
  have bd: "live ! a < 2 ^ 32" "live ! b < 2 ^ 32" "live ! c < 2 ^ 32"
    using bound len by blast+
  have 1: "sub32 (live ! a) 1 = live ! a - 1"
    using e(1) bd(1) by (intro sub32_1) simp_all
  have b1: "0 < l1 ! b" "l1 ! b < 2 ^ 32"
    using e(2) bd(2) len by (auto simp: l1_def nth_list_update split: if_splits)
  have 2: "sub32 (l1 ! b) 1 = l1 ! b - 1"
    using b1 by (rule sub32_1)
  have c2: "0 < l2 ! c" "l2 ! c < 2 ^ 32"
    using e(3) bd(3) len by (auto simp: l1_def l2_def nth_list_update split: if_splits)
  have 3: "sub32 (l2 ! c) 1 = l2 ! c - 1"
    using c2 by (rule sub32_1)
  have "update_live (a, b, c) live = Some l3"
    using len 1 2 3 by (simp add: update_live_def l1_def l2_def l3_def)
  moreover have "l3 ! v = live ! v - count_list [a, b, c] v" if "v < length live" for v
    using that len by (auto simp: l1_def l2_def l3_def nth_list_update)
  ultimately show ?thesis
    by (auto simp: l1_def l2_def l3_def)
qed


lemma take_update3:
  assumes "n + 3 \<le> length xs"
  shows "take (n + 3) (xs[n := a, n + 1 := b, n + 2 := c]) = take n xs @ [a, b, c]"
proof -
  have "take (n + 3) (xs[n := a, n + 1 := b, n + 2 := c]) ! i = (take n xs @ [a, b, c]) ! i"
    if lt: "i < n + 3" for i
  proof -
    consider "i < n" | "i = n" | "i = n + 1" | "i = n + 2"
      using lt by atomize_elim arith
    then show ?thesis
      by cases (use assms in \<open>simp_all add: nth_append\<close>)
  qed
  then show ?thesis
    using assms by (intro nth_equalityI) simp_all
qed

lemma drop_update3:
  "drop (n + 3) (xs[n := a, n + 1 := b, n + 2 := c]) = drop (n + 3) xs"
  by simp

lemma distinct_length_less:
  assumes "distinct order" "set order \<subseteq> {t. t < F}" "t < F" "t \<notin> set order"
  shows "length order < (F::nat)"
proof -
  have "set order \<subseteq> {..<F} - {t}" using assms by auto
  then have "card (set order) \<le> card ({..<F} - {t})"
    by (intro card_mono) auto
  also have "\<dots> < F" using assms(3) by simp
  finally show ?thesis using assms(1) by (simp add: distinct_card)
qed

lemma written_out_less:
  assumes "written idx F m0 dst cp ip m ef out" "t < F" "\<not> ef ! t"
  shows "out < F"
proof -
  from assms(1) obtain order where "distinct order" "set order = {t. t < F \<and> ef ! t}" "out = length order"
    by (auto simp: written_def)
  with assms(2,3) distinct_length_less [of order F t] show ?thesis
    by auto
qed

lemma written_read:
  assumes "written idx F m0 dst cp ip m ef out" "j < 3 * F" "length idx = 3 * F"
  shows "rd (deref m cp ip) j = Some (idx ! j)"
proof -
  from assms(1) have t: "take (3 * F) (deref m cp ip) = idx"
    by (simp add: written_def)
  with assms(3) have "3 * F \<le> length (deref m cp ip)"
    by (metis length_take min.cobounded1 min_def nat_le_linear take_all)
  moreover from t assms(2) have "deref m cp ip ! j = idx ! j"
    by (metis nth_take)
  ultimately show ?thesis
    using assms(2) by simp
qed

lemma written_emit:
  assumes w: "written idx F m0 dst cp ip m ef out"
    and ctx: "length idx = 3 * F" "3 * F \<le> length (m0 dst)" "ip \<noteq> Ext dst"
    and t: "t < F" "\<not> ef ! t"
  defines "m1 \<equiv> m(dst := (m dst)[out * 3 + 0 := idx ! (3 * t)])"
  defines "m2 \<equiv> m1(dst := (m1 dst)[out * 3 + 1 := idx ! (3 * t + 1)])"
  defines "m3 \<equiv> m2(dst := (m2 dst)[out * 3 + 2 := idx ! (3 * t + 2)])"
  shows "wr_mem m dst (out * 3 + 0) (idx ! (3 * t)) = Some m1"
    and "wr_mem m1 dst (out * 3 + 1) (idx ! (3 * t + 1)) = Some m2"
    and "wr_mem m2 dst (out * 3 + 2) (idx ! (3 * t + 2)) = Some m3"
    and "written idx F m0 dst cp ip m3 (ef[t := True]) (out + 1)"
proof -
  from w obtain order where o: "distinct order" "set order = {t. t < F \<and> ef ! t}" "out = length order"
    "take (3 * out) (m dst) = concat (map (tri idx) order)"
    and m: "length ef = F" "take (3 * F) (deref m cp ip) = idx" "\<forall>p. p \<noteq> dst \<longrightarrow> m p = m0 p"
    "length (m dst) = length (m0 dst)" "drop (3 * out) (m dst) = drop (3 * out) (m0 dst)"
    by (auto simp: written_def)
  have out: "out < F" using w t by (rule written_out_less)
  then have rng: "out * 3 + 3 \<le> length (m dst)"
    using ctx(2) m(4) by simp
  then show "wr_mem m dst (out * 3 + 0) (idx ! (3 * t)) = Some m1"
    and "wr_mem m1 dst (out * 3 + 1) (idx ! (3 * t + 1)) = Some m2"
    and "wr_mem m2 dst (out * 3 + 2) (idx ! (3 * t + 2)) = Some m3"
    by (simp_all add: wr_mem_def m1_def m2_def m3_def)
  have m3: "m3 = m(dst := (m dst)[out * 3 := idx ! (3 * t), out * 3 + 1 := idx ! (3 * t + 1),
                                   out * 3 + 2 := idx ! (3 * t + 2)])"
    by (simp add: m1_def m2_def m3_def)
  have d: "deref m3 cp ip = deref m cp ip"
    using ctx(3) by (cases ip) (auto simp: deref_def m3)
  have tk: "take (3 * (out + 1)) (m3 dst) = concat (map (tri idx) (order @ [t]))"
    using take_update3 [of "out * 3" "m dst", OF rng] o(4)
    by (simp add: m3 tri_def mult.commute add.commute)
  have "drop (out * 3 + 3) (m3 dst) = drop (out * 3 + 3) (m dst)"
    unfolding m3 by simp
  also have "\<dots> = drop 3 (drop (3 * out) (m dst))"
    by (simp add: add.commute mult.commute)
  also have "\<dots> = drop 3 (drop (3 * out) (m0 dst))"
    by (simp only: m(5))
  also have "\<dots> = drop (out * 3 + 3) (m0 dst)"
    by (simp add: add.commute mult.commute)
  finally have dr: "drop (3 * (out + 1)) (m3 dst) = drop (3 * (out + 1)) (m0 dst)"
    by (simp add: add.commute mult.commute)
  have st: "set (order @ [t]) = {t'. t' < F \<and> ef[t := True] ! t'}"
    using o(2) t(1) m(1) by (auto simp: nth_list_update)
  have "t \<notin> set order" using o(2) t(2) by simp
  with o(1) have di: "distinct (order @ [t])" by simp
  show "written idx F m0 dst cp ip m3 (ef[t := True]) (out + 1)"
    unfolding written_def using m(1,3,4) d m(2) dr
    by (intro conjI exI [of _ "order @ [t]"] di st tk) (simp_all add: m3 o(3))
qed


subsection \<open>Facts about the adjacency lists\<close>

lemma corner_count_tri:
  assumes "t < F"
  shows "length (filter (\<lambda>j. j div 3 = t) (corners idx (3 * F) v)) = count_list (tri idx t) v"
proof -
  have "[0..<3] = [0, 1, 2]" by (simp add: numeral_3_eq_3)
  then show ?thesis
    using corner_count [OF assms, of idx v] by (simp add: tri_def)
qed

lemma length_filter_diff:
  assumes "\<And>x. x \<in> set xs \<Longrightarrow> Q x \<Longrightarrow> P x"
  shows "length (filter (\<lambda>x. P x \<and> \<not> Q x) xs) = length (filter P xs) - length (filter Q xs)"
    and "length (filter Q xs) \<le> length (filter P xs)"
  using assms by (induction xs) (auto simp: Suc_diff_le)

lemma length_corners_le: "length (corners idx n v) \<le> n"
  unfolding corners_def by (rule order_trans [OF length_filter_le]) simp

lemma adjacency_of_segment:
  assumes adj: "adjacency_of idx n V adj" and rng: "\<forall>j < n. idx ! j < V" and v: "v < V"
  shows "offsets adj ! v + triangle_counts adj ! v \<le> n"
    and "length (neighbours adj v) = triangle_counts adj ! v"
    and "i < triangle_counts adj ! v \<Longrightarrow> data adj ! (offsets adj ! v + i) = neighbours adj v ! i"
proof -
  let ?cs = "triangle_counts adj"
  from adj have a: "length (data adj) = n" "?cs = map (\<lambda>v. length (corners idx n v)) [0..<V]"
    "offsets adj = map (\<lambda>v. sum_list (take v ?cs)) [0..<V]"
    by (auto simp: adjacency_of_def)
  have tot: "sum_list ?cs = n"
    unfolding a(2) using rng by (rule sum_length_corners)
  have V: "length ?cs = V" by (simp add: a(2))
  show le: "offsets adj ! v + ?cs ! v \<le> n"
    using segment_end_le [of v ?cs] v V tot by (simp add: a(3))
  with a(1) show "length (neighbours adj v) = ?cs ! v"
    by (simp add: neighbours_def)
  show "data adj ! (offsets adj ! v + i) = neighbours adj v ! i" if "i < ?cs ! v"
    using that le a(1) by (simp add: neighbours_def)
qed

lemma adjacency_of_nth_less:
  assumes adj: "adjacency_of idx (3 * F) V adj" and v: "v < V" and i: "i < triangle_counts adj ! v"
  shows "neighbours adj v ! i < F"
proof -
  from adj v have n: "neighbours adj v = map (\<lambda>j. j div 3) (corners idx (3 * F) v)"
    and c: "triangle_counts adj ! v = length (corners idx (3 * F) v)"
    by (auto simp: adjacency_of_def)
  from i c have "corners idx (3 * F) v ! i \<in> set (corners idx (3 * F) v)"
    by (intro nth_mem) simp
  then have "corners idx (3 * F) v ! i < 3 * F"
    by (simp add: set_corners)
  with i c show ?thesis
    by (simp add: n)
qed

subsection \<open>The invariant of the FIFO loop\<close>

lemma pending_le: "pending ef idx F v \<le> 3 * F"
  unfolding pending_def by (rule order_trans [OF length_filter_le length_corners_le])

lemma pending_emit:
  assumes "length ef = F" "t < F" "\<not> ef ! t"
  shows "pending (ef[t := True]) idx F v = pending ef idx F v - count_list (tri idx t) v"
    and "count_list (tri idx t) v \<le> pending ef idx F v"
proof -
  let ?C = "corners idx (3 * F) v"
  have lt: "j div 3 < F" if "j \<in> set ?C" for j
    using that by (auto simp: set_corners)
  have up: "ef[t := True] ! k = (ef ! k \<or> k = t)" if "k < F" for k
    using assms(1,2) by (auto simp: nth_list_update)
  have "filter (\<lambda>j. \<not> ef[t := True] ! (j div 3)) ?C = filter (\<lambda>j. \<not> ef ! (j div 3) \<and> \<not> j div 3 = t) ?C"
    by (intro filter_cong refl) (simp add: up lt)
  moreover have "\<not> ef ! (j div 3)" if "j div 3 = t" for j
    using that assms(3) by simp
  ultimately show "pending (ef[t := True]) idx F v = pending ef idx F v - count_list (tri idx t) v"
    and "count_list (tri idx t) v \<le> pending ef idx F v"
    unfolding pending_def
    using length_filter_diff [of ?C "\<lambda>j. j div 3 = t" "\<lambda>j. \<not> ef ! (j div 3)"] corner_count_tri [OF assms(2), of idx v]
    by simp_all
qed

lemma pending_mono:
  assumes "\<forall>t < F. ef ! t \<longrightarrow> ef' ! t"
  shows "pending ef' idx F v \<le> pending ef idx F v"
proof -
  have "length (filter (\<lambda>j. \<not> ef' ! (j div 3)) (corners idx (3 * F) v))
      \<le> length (filter (\<lambda>j. \<not> ef ! (j div 3)) (corners idx (3 * F) v))"
  proof (rule length_filter_diff(2))
    fix j assume "j \<in> set (corners idx (3 * F) v)" "\<not> ef' ! (j div 3)"
    then have "j div 3 < F" "\<not> ef' ! (j div 3)" by (auto simp: set_corners)
    with assms show "\<not> ef ! (j div 3)" by blast
  qed
  then show ?thesis by (simp add: pending_def)
qed

lemma pending_0_iff:
  "pending ef idx F v = 0 \<longleftrightarrow> (\<forall>j < 3 * F. idx ! j = v \<longrightarrow> ef ! (j div 3))"
  by (auto simp: pending_def filter_empty_conv set_corners)

lemma cache_insert_spec:
  assumes "v < length ct"
  shows "\<exists>ct' ts'. cache_insert cs v (ct, ts) = Some (ct', ts') \<and> length ct' = length ct"
  using assms by (auto simp: cache_insert_def)

lemma emit_neighbour_spec:
  assumes inv: "fifo_inv idx F V m0 dst cp ip s"
    and ctx: "length idx = 3 * F" "3 * F \<le> length (m0 dst)" "ip \<noteq> Ext dst" "3 * F < 2 ^ 32"
      "\<forall>j < 3 * F. idx ! j < V"
    and it: "it < length (data adj)" "data adj ! it < F"
  shows "\<exists>s'. emit_neighbour dst cp ip cs adj it s = Some s' \<and> fifo_inv idx F V m0 dst cp ip s'
           \<and> emitted_flags s' = (emitted_flags s)[data adj ! it := True]
           \<and> input_cursor s' = input_cursor s \<and> current_vertex s' = current_vertex s
           \<and> dead_end_top s \<le> dead_end_top s'"
proof (cases "emitted_flags s ! (data adj ! it)")
  case True
  from inv have "length (emitted_flags s) = F"
    by (simp add: fifo_inv_def written_def)
  with it True have "(emitted_flags s)[data adj ! it := True] = emitted_flags s"
    by (metis list_update_id)
  with True it inv \<open>length (emitted_flags s) = F\<close> show ?thesis
    by (simp add: emit_neighbour_def)
next
  case False
  let ?t = "data adj ! it"
  let ?a = "idx ! (3 * ?t)" and ?b = "idx ! (3 * ?t + 1)" and ?c = "idx ! (3 * ?t + 2)"
  let ?out = "output_triangle s"
  from inv have w: "written idx F m0 dst cp ip (mem s) (emitted_flags s) ?out"
    and len: "length (live_triangles s) = V" "length (cache_timestamps s) = V" "length (dead_end s) = 3 * F"
    and live: "\<forall>v < V. live_triangles s ! v = pending (emitted_flags s) idx F v"
    and de: "dead_end_top s \<le> 3 * ?out" "\<forall>p < dead_end_top s. dead_end s ! p < V"
    by (auto simp: fifo_inv_def)
  have ef: "length (emitted_flags s) = F" using w by (simp add: written_def)
  have out: "?out < F" using w it(2) False by (rule written_out_less)
  have j: "3 * ?t < 3 * F" "3 * ?t + 1 < 3 * F" "3 * ?t + 2 < 3 * F" using it(2) by simp_all
  have abc: "?a < V" "?b < V" "?c < V" using ctx(5) j by blast+
  have r: "rd (deref (mem s) cp ip) (?t * 3 + 0) = Some ?a" "rd (deref (mem s) cp ip) (?t * 3 + 1) = Some ?b"
    "rd (deref (mem s) cp ip) (?t * 3 + 2) = Some ?c"
    using written_read [OF w _ ctx(1)] j by (simp_all add: mult.commute)
  define m1 where "m1 = (mem s)(dst := (mem s dst)[?out * 3 + 0 := ?a])"
  define m2 where "m2 = m1(dst := (m1 dst)[?out * 3 + 1 := ?b])"
  define m' where "m' = m2(dst := (m2 dst)[?out * 3 + 2 := ?c])"
  have wm: "wr_mem (mem s) dst (?out * 3 + 0) ?a = Some m1" "wr_mem m1 dst (?out * 3 + 1) ?b = Some m2"
      "wr_mem m2 dst (?out * 3 + 2) ?c = Some m'"
    and w': "written idx F m0 dst cp ip m' ((emitted_flags s)[?t := True]) (?out + 1)"
    unfolding m'_def m2_def m1_def using written_emit [OF w ctx(1,2,3) it(2) False] by blast+
  define de1 where "de1 = (dead_end s)[dead_end_top s + 0 := ?a]"
  define de2 where "de2 = de1[dead_end_top s + 1 := ?b]"
  define de' where "de' = de2[dead_end_top s + 2 := ?c]"
  have top: "dead_end_top s + 2 < 3 * F" using de(1) out by simp
  have wd: "wr (dead_end s) (dead_end_top s + 0) ?a = Some de1" "wr de1 (dead_end_top s + 1) ?b = Some de2"
     "wr de2 (dead_end_top s + 2) ?c = Some de'"
    using top len(3) by (simp_all add: de'_def de2_def de1_def)
  have "\<forall>v < length (live_triangles s). count_list [?a, ?b, ?c] v \<le> live_triangles s ! v"
    using pending_emit(2) [OF ef it(2) False, of idx] live len(1) by (simp add: tri_def)
  moreover have "\<forall>v < length (live_triangles s). live_triangles s ! v < 2 ^ 32"
    using live len(1) pending_le [of "emitted_flags s" idx F] ctx(4)
    by (metis le_less_trans)
  ultimately obtain live' where ul: "update_live (?a, ?b, ?c) (live_triangles s) = Some live'"
    "length live' = V" "\<forall>v < V. live' ! v = live_triangles s ! v - count_list [?a, ?b, ?c] v"
    using update_live_spec [of ?a "live_triangles s" ?b ?c] abc len(1) by auto
  have live': "\<forall>v < V. live' ! v = pending ((emitted_flags s)[?t := True]) idx F v"
    using ul(3) live pending_emit(1) [OF ef it(2) False, of idx] by (simp add: tri_def)
  from cache_insert_spec [of ?a "cache_timestamps s" cs "timestamp s"] abc(1) len(2)
  obtain ct1 ts1 where c1: "cache_insert cs ?a (cache_timestamps s, timestamp s) = Some (ct1, ts1)" "length ct1 = V"
    by auto
  from cache_insert_spec [of ?b ct1 cs ts1] abc(2) c1(2)
  obtain ct2 ts2 where c2: "cache_insert cs ?b (ct1, ts1) = Some (ct2, ts2)" "length ct2 = V"
    by auto
  from cache_insert_spec [of ?c ct2 cs ts2] abc(3) c2(2)
  obtain ct3 ts3 where c3: "cache_insert cs ?c (ct2, ts2) = Some (ct3, ts3)" "length ct3 = V"
    by auto
  define s' where "s' = s\<lparr>mem := m', output_triangle := ?out + 1,
               dead_end := de', dead_end_top := dead_end_top s + 3,
               live_triangles := live', cache_timestamps := ct3, timestamp := ts3,
               emitted_flags := (emitted_flags s)[?t := True]\<rparr>"
  have step: "emit_neighbour dst cp ip cs adj it s = Some s'"
    unfolding emit_neighbour_def s'_def
    using it(1) ef it(2) False r wm wd ul(1) c1(1) c2(1) c3(1)
    by simp
  have "\<forall>p < dead_end_top s + 3. de' ! p < V"
  proof (intro allI impI)
    fix p assume "p < dead_end_top s + 3"
    then consider "p < dead_end_top s" | "p = dead_end_top s" | "p = dead_end_top s + 1" | "p = dead_end_top s + 2"
      by atomize_elim arith
    then show "de' ! p < V"
      by cases (use de(2) abc top len(3) in \<open>simp_all add: de'_def de2_def de1_def\<close>)
  qed
  then have "fifo_inv idx F V m0 dst cp ip s'"
    unfolding fifo_inv_def s'_def using w' ul(2) c3(2) len(3) live' de(1)
    by (simp add: de'_def de2_def de1_def)
  with step show ?thesis
    by (intro exI [of _ s']) (simp add: s'_def)
qed


lemma written_out_card:
  assumes "written idx F m0 dst cp ip m ef out"
  shows "out = card {t. t < F \<and> ef ! t}"
proof -
  from assms obtain order where "distinct order" "set order = {t. t < F \<and> ef ! t}" "out = length order"
    by (auto simp: written_def)
  then show ?thesis by (metis distinct_card)
qed

lemma written_out_mono:
  assumes "written idx F m0 dst cp ip m ef out" "written idx F m0 dst cp ip m' ef' out'"
    and "\<forall>t < F. ef ! t \<longrightarrow> ef' ! t"
  shows "out \<le> out'"
    and "t < F \<Longrightarrow> \<not> ef ! t \<Longrightarrow> ef' ! t \<Longrightarrow> out < out'"
proof -
  have fin: "finite {t. t < F \<and> ef' ! t}" by simp
  have sub: "{t. t < F \<and> ef ! t} \<subseteq> {t. t < F \<and> ef' ! t}" using assms(3) by auto
  show "out \<le> out'"
    unfolding written_out_card [OF assms(1)] written_out_card [OF assms(2)]
    using sub by (intro card_mono fin)
  show "out < out'" if "t < F" "\<not> ef ! t" "ef' ! t"
    unfolding written_out_card [OF assms(1)] written_out_card [OF assms(2)]
    using sub that by (intro psubset_card_mono fin) auto
qed

lemma written_out_le:
  assumes "written idx F m0 dst cp ip m ef out"
  shows "out \<le> F"
proof -
  have "card {t. t < F \<and> ef ! t} \<le> card {..<F}"
    by (intro card_mono) auto
  then show ?thesis
    unfolding written_out_card [OF assms] by simp
qed

lemma fifo_emit_all:
  assumes inv: "fifo_inv idx F V m0 dst cp ip s"
    and ctx: "length idx = 3 * F" "3 * F \<le> length (m0 dst)" "ip \<noteq> Ext dst" "3 * F < 2 ^ 32"
      "\<forall>j < 3 * F. idx ! j < V"
    and adj: "adjacency_of idx (3 * F) V adj" and v: "v < V"
  defines "b \<equiv> offsets adj ! v" and "n \<equiv> triangle_counts adj ! v"
  shows "\<exists>s'. for_loop [b..<b + n] (emit_neighbour dst cp ip cs adj) s = Some s'
           \<and> fifo_inv idx F V m0 dst cp ip s'
           \<and> (\<forall>t < F. emitted_flags s ! t \<longrightarrow> emitted_flags s' ! t)
           \<and> live_triangles s' ! v = 0
           \<and> input_cursor s' = input_cursor s \<and> current_vertex s' = current_vertex s
           \<and> dead_end_top s \<le> dead_end_top s'
           \<and> (0 < live_triangles s ! v \<longrightarrow> output_triangle s < output_triangle s')"
proof -
  have seg: "b + n \<le> 3 * F" "length (neighbours adj v) = n"
    "\<And>i. i < n \<Longrightarrow> data adj ! (b + i) = neighbours adj v ! i"
    unfolding b_def n_def using adjacency_of_segment [OF adj ctx(5) v] by blast+
  have nb: "neighbours adj v = map (\<lambda>j. j div 3) (corners idx (3 * F) v)"
    using adj v by (simp add: adjacency_of_def)
  have dl: "length (data adj) = 3 * F" using adj by (simp add: adjacency_of_def)
  have lt: "data adj ! it < F" if "b \<le> it" "it < b + n" for it
  proof -
    from that have "it - b < n" by simp
    with seg(3) [of "it - b"] adjacency_of_nth_less [OF adj v, of "it - b"] that show ?thesis
      by (simp add: n_def)
  qed
  define P where "P it s1 \<longleftrightarrow> fifo_inv idx F V m0 dst cp ip s1
      \<and> (\<forall>i. b \<le> i \<and> i < it \<longrightarrow> emitted_flags s1 ! (data adj ! i))
      \<and> (\<forall>t < F. emitted_flags s ! t \<longrightarrow> emitted_flags s1 ! t)
      \<and> input_cursor s1 = input_cursor s \<and> current_vertex s1 = current_vertex s
      \<and> dead_end_top s \<le> dead_end_top s1" for it s1
  have "\<exists>s'. for_loop [b..<b + n] (emit_neighbour dst cp ip cs adj) s = Some s' \<and> P (b + n) s'"
  proof (rule for_loop_rule)
    show "P b s" using inv by (auto simp: P_def)
  next
    fix it s1 assume it: "b \<le> it" "it < b + n" and p: "P it s1"
    then have i1: "fifo_inv idx F V m0 dst cp ip s1" by (simp add: P_def)
    have il: "it < length (data adj)" using it seg(1) dl by simp
    have ef: "length (emitted_flags s1) = F" using i1 by (simp add: fifo_inv_def written_def)
    from emit_neighbour_spec [OF i1 ctx il lt [OF it], of cs]
    obtain s2 where s2: "emit_neighbour dst cp ip cs adj it s1 = Some s2" "fifo_inv idx F V m0 dst cp ip s2"
      "emitted_flags s2 = (emitted_flags s1)[data adj ! it := True]"
      "input_cursor s2 = input_cursor s1" "current_vertex s2 = current_vertex s1"
      "dead_end_top s1 \<le> dead_end_top s2"
      by blast
    have keep: "emitted_flags s2 ! t" if "emitted_flags s1 ! t" for t
      using that s2(3) lt [OF it] ef by (cases "t = data adj ! it") simp_all
    have "emitted_flags s2 ! (data adj ! i)" if "b \<le> i \<and> i < Suc it" for i
    proof (cases "i = it")
      case True
      with lt [OF it] ef show ?thesis by (simp add: s2(3))
    next
      case False
      with that p have "emitted_flags s1 ! (data adj ! i)" by (simp add: P_def)
      then show ?thesis by (rule keep)
    qed
    with s2 p keep show "\<exists>s'. emit_neighbour dst cp ip cs adj it s1 = Some s' \<and> P (Suc it) s'"
      by (auto simp: P_def)
  qed simp
  then obtain s' where s': "for_loop [b..<b + n] (emit_neighbour dst cp ip cs adj) s = Some s'"
    and i': "fifo_inv idx F V m0 dst cp ip s'"
    and all: "\<forall>i. b \<le> i \<and> i < b + n \<longrightarrow> emitted_flags s' ! (data adj ! i)"
    and mono: "\<forall>t < F. emitted_flags s ! t \<longrightarrow> emitted_flags s' ! t"
    and fr: "input_cursor s' = input_cursor s" "current_vertex s' = current_vertex s"
      "dead_end_top s \<le> dead_end_top s'"
    by (auto simp: P_def)
  have fin_v: "emitted_flags s' ! (j div 3)" if "j < 3 * F" "idx ! j = v" for j
  proof -
    from that have "j \<in> set (corners idx (3 * F) v)" by (simp add: set_corners)
    then obtain i where i: "i < length (corners idx (3 * F) v)" "corners idx (3 * F) v ! i = j"
      by (auto simp: in_set_conv_nth)
    with seg(2) nb have "i < n" by simp
    with all seg(3) [of i] have "emitted_flags s' ! (neighbours adj v ! i)"
      by (metis le_add1 nat_add_left_cancel_less)
    with i show ?thesis by (simp add: nb)
  qed
  have l0: "live_triangles s' ! v = 0"
    using i' v fin_v by (simp add: fifo_inv_def pending_0_iff)
  have w: "written idx F m0 dst cp ip (mem s) (emitted_flags s) (output_triangle s)"
    "written idx F m0 dst cp ip (mem s') (emitted_flags s') (output_triangle s')"
    using inv i' by (simp_all add: fifo_inv_def)
  have "output_triangle s < output_triangle s'" if "0 < live_triangles s ! v"
  proof -
    from that inv v have "pending (emitted_flags s) idx F v \<noteq> 0"
      by (simp add: fifo_inv_def)
    then obtain j where j: "j < 3 * F" "idx ! j = v" "\<not> emitted_flags s ! (j div 3)"
      by (auto simp: pending_0_iff)
    from j(1) have "j div 3 < F" by simp
    from written_out_mono(2) [OF w mono this j(3) fin_v [OF j(1,2)]] show ?thesis .
  qed
  with s' i' mono l0 fr show ?thesis by (intro exI [of _ s']) simp
qed

lemma fifo_iteration_spec:
  assumes inv: "fifo_outer idx F V m0 dst cp ip s" and cur: "current_vertex s \<noteq> None"
    and ctx: "length idx = 3 * F" "3 * F \<le> length (m0 dst)" "ip \<noteq> Ext dst" "3 * F < 2 ^ 32"
      "\<forall>j < 3 * F. idx ! j < V"
    and adj: "adjacency_of idx (3 * F) V adj"
  shows "\<exists>s'. fifo_iteration dst cp ip V cs adj s = Some s' \<and> fifo_outer idx F V m0 dst cp ip s'
           \<and> fifo_measure F s' < fifo_measure F s"
proof -
  from cur obtain v where v: "current_vertex s = Some v" by auto
  from inv v have vV: "v < V" and i0: "fifo_inv idx F V m0 dst cp ip s"
    and c0: "\<forall>u < input_cursor s. u < V \<longrightarrow> live_triangles s ! u = 0 \<or> u = v"
    by (auto simp: fifo_outer_def)
  from adj have al: "length (offsets adj) = V" "length (triangle_counts adj) = V"
    by (simp_all add: adjacency_of_def)
  from fifo_emit_all [OF i0 ctx adj vV, of cs]
  obtain s1 where s1: "for_loop [offsets adj ! v..<offsets adj ! v + triangle_counts adj ! v]
        (emit_neighbour dst cp ip cs adj) s = Some s1"
    and i1: "fifo_inv idx F V m0 dst cp ip s1"
    and mono: "\<forall>t < F. emitted_flags s ! t \<longrightarrow> emitted_flags s1 ! t"
    and l0: "live_triangles s1 ! v = 0"
    and fr: "input_cursor s1 = input_cursor s" "current_vertex s1 = current_vertex s"
      "dead_end_top s \<le> dead_end_top s1"
    and out: "0 < live_triangles s ! v \<longrightarrow> output_triangle s < output_triangle s1"
    by (elim exE conjE)
  have w: "written idx F m0 dst cp ip (mem s) (emitted_flags s) (output_triangle s)"
    "written idx F m0 dst cp ip (mem s1) (emitted_flags s1) (output_triangle s1)"
    using i0 i1 by (simp_all add: fifo_inv_def)
  have ole: "output_triangle s \<le> output_triangle s1" "output_triangle s1 \<le> F"
    using written_out_mono(1) [OF w mono] written_out_le [OF w(2)] by simp_all
  from i1 have len: "length (live_triangles s1) = V" "length (cache_timestamps s1) = V"
    "length (dead_end s1) = 3 * F" "dead_end_top s1 \<le> 3 * output_triangle s1"
    "\<forall>p < dead_end_top s1. dead_end s1 ! p < V"
    "\<forall>u < V. live_triangles s1 ! u = pending (emitted_flags s1) idx F u"
    by (simp_all add: fifo_inv_def)
  have zero: "live_triangles s1 ! u = 0" if "u < input_cursor s" "u < V" for u
  proof (cases "u = v")
    case True
    with l0 show ?thesis by simp
  next
    case False
    with c0 that have "live_triangles s ! u = 0" by blast
    moreover have "live_triangles s ! u = pending (emitted_flags s) idx F u"
      using i0 that(2) by (simp add: fifo_inv_def)
    ultimately show ?thesis
      using pending_mono [OF mono, of idx u] len(6) that(2) by simp
  qed
  have tl: "dead_end_top s1 \<le> length (dead_end s1)"
    using len(3,4) ole(2) by simp
  from getNextVertexNeighbour_sound [OF fr(3) tl, of "live_triangles s1" "cache_timestamps s1" "timestamp s1" cs] len
  obtain r where r: "getNextVertexNeighbour (dead_end s1) (dead_end_top s) (dead_end_top s1)
        (live_triangles s1) (cache_timestamps s1) (timestamp s1) cs = Some r"
    "\<forall>v'. r = Some v' \<longrightarrow> v' < V \<and> live_triangles s1 ! v' > 0"
    by auto
  have step: "fifo_iteration dst cp ip V cs adj s = next_vertex V (dead_end_top s) cs s1"
    using v vV al s1 by (simp add: fifo_iteration_def)
  show ?thesis
  proof (cases r)
    case (Some v')
    define s2 where "s2 = s1\<lparr>current_vertex := Some v'\<rparr>"
    have n: "next_vertex V (dead_end_top s) cs s1 = Some s2"
      using r(1) Some by (simp add: next_vertex_def s2_def)
    have "fifo_outer idx F V m0 dst cp ip s2"
      unfolding fifo_outer_def s2_def using i1 zero fr(1) r(2) Some
      by (simp add: fifo_inv_def)
    moreover have "fifo_measure F s2 < fifo_measure F s"
      using r(2) Some ole out v by (auto simp: fifo_measure_def s2_def)
    ultimately show ?thesis using step n by simp
  next
    case None
    have "\<forall>p < dead_end_top s1. dead_end s1 ! p < length (live_triangles s1)"
      using len(1,5) by simp
    from getNextVertexDeadEnd_spec [OF tl this len(1), of "input_cursor s1"]
    obtain r2 tp c' where d: "getNextVertexDeadEnd (dead_end s1) (dead_end_top s1) (input_cursor s1)
          (live_triangles s1) V = Some (r2, tp, c')"
      "tp \<le> dead_end_top s1" "input_cursor s1 \<le> c'"
      "\<forall>u. input_cursor s1 \<le> u \<and> u < c' \<longrightarrow> live_triangles s1 ! u = 0"
      "case r2 of Some v \<Rightarrow> v < V \<and> live_triangles s1 ! v > 0 | None \<Rightarrow> V \<le> c'"
      by blast
    define s2 where "s2 = s1\<lparr>current_vertex := r2, dead_end_top := tp, input_cursor := c'\<rparr>"
    have n: "next_vertex V (dead_end_top s) cs s1 = Some s2"
      using r(1) None d(1) by (simp add: next_vertex_def s2_def)
    have z2: "live_triangles s1 ! u = 0" if "u < c'" "u < V" for u
      using that zero [of u] d(4) fr(1) by (cases "u < input_cursor s") auto
    have "fifo_inv idx F V m0 dst cp ip s2"
      using i1 d(2) by (auto simp: fifo_inv_def s2_def)
    then have "fifo_outer idx F V m0 dst cp ip s2"
      unfolding fifo_outer_def using z2 d(5)
      by (auto simp: s2_def split: option.splits)
    moreover have "fifo_measure F s2 < fifo_measure F s"
      using d(5) ole out v by (auto simp: fifo_measure_def s2_def split: option.splits)
    ultimately show ?thesis using step n by simp
  qed
qed


lemma c_assert_imp: "chk \<longrightarrow> c \<Longrightarrow> c_assert chk c = Some ()"
  by (simp add: c_assert_def)

lemma corners_take: "corners (take n buf) n v = corners buf n v"
  unfolding corners_def by (rule filter_cong) auto

lemma adjacency_of_take: "adjacency_of (take n buf) n V adj \<longleftrightarrow> adjacency_of buf n V adj"
  by (simp add: adjacency_of_def corners_take)

lemma concat_tri_nth:
  assumes "k < length order" "i < 3"
  shows "concat (map (tri idx) order) ! (3 * k + i) = tri idx (order ! k) ! i"
  using assms
proof (induction order arbitrary: k)
  case Nil
  then show ?case by simp
next
  case (Cons t order)
  have l: "length (tri idx t) = 3" by (simp add: tri_def)
  show ?case
  proof (cases k)
    case 0
    with Cons.prems l show ?thesis by (simp add: nth_append)
  next
    case (Suc k')
    with Cons.prems have "concat (map (tri idx) order) ! (3 * k' + i) = tri idx (order ! k') ! i"
      by (intro Cons.IH) simp_all
    moreover have "3 * k + i - 3 = 3 * k' + i" using Suc by simp
    ultimately show ?thesis
      using Suc l by (simp add: nth_append)
  qed
qed

lemma triangles_cong:
  assumes "\<forall>j < 3 * F. xs ! j = ys ! j"
  shows "triangles xs F = triangles ys F"
  unfolding triangles_def using assms by (intro map_cong refl) simp

lemma written_final:
  assumes w: "written idx F m0 dst cp ip m ef F" and len: "length idx = 3 * F" "3 * F \<le> length (m0 dst)"
  shows "mset (triangles (m dst) F) = mset (triangles idx F)"
proof -
  from w obtain order where o: "distinct order" "set order = {t. t < F \<and> ef ! t}" "F = length order"
    "take (3 * F) (m dst) = concat (map (tri idx) order)"
    by (auto simp: written_def)
  have "set order \<subseteq> {..<F}" using o(2) by auto
  moreover have "card (set order) = card {..<F}" using o(1,3) by (simp add: distinct_card)
  ultimately have "set order = {..<F}"
    by (intro card_subset_eq) simp_all
  with o(1) have ms: "mset order = mset [0..<F]"
    by (intro set_eq_iff_mset_eq_distinct [THEN iffD1]) (auto simp: atLeast0LessThan)
  let ?f = "\<lambda>t. (idx ! (3 * t), idx ! (3 * t + 1), idx ! (3 * t + 2))"
  have "triangles (m dst) F = map ?f order"
  proof (rule nth_equalityI)
    show "length (triangles (m dst) F) = length (map ?f order)"
      using o(3) by (simp add: triangles_def)
  next
    fix k assume "k < length (triangles (m dst) F)"
    then have k: "k < F" by (simp add: triangles_def)
    have "m dst ! (3 * k + i) = tri idx (order ! k) ! i" if "i < 3" for i
    proof -
      from k that have "3 * k + i < 3 * F" by simp
      then have "m dst ! (3 * k + i) = take (3 * F) (m dst) ! (3 * k + i)" by simp
      also have "\<dots> = tri idx (order ! k) ! i"
        unfolding o(4) using k o(3) that by (intro concat_tri_nth) simp_all
      finally show ?thesis .
    qed
    from this [of 0] this [of 1] this [of 2] k o(3) show "triangles (m dst) F ! k = map ?f order ! k"
      by (simp add: triangles_def tri_def)
  qed
  then have "mset (triangles (m dst) F) = image_mset ?f (mset order)"
    by simp
  also have "\<dots> = mset (triangles idx F)"
    unfolding ms by (simp add: triangles_def)
  finally show ?thesis .
qed

lemma valid_indices_empty:
  assumes "valid_indices buf n V" "n = 0 \<or> V = 0"
  shows "n = 0"
proof (rule ccontr)
  assume "n \<noteq> 0"
  with assms(2) have "0 < n" "V = 0" by auto
  with valid_indices_nth [OF assms(1), of 0] show False by simp
qed

lemma support_in_place_spec:
  assumes "n \<le> length (m src)"
  shows "\<exists>cp ip. support_in_place m dst src n = Some (cp, ip) \<and> ip \<noteq> Ext dst
           \<and> take n (deref m cp ip) = take n (m src)"
  using assms by (auto simp: support_in_place_def memcpy_def deref_def)

lemma written_initial:
  assumes "take (3 * F) (deref m cp ip) = idx"
  shows "written idx F m dst cp ip m (replicate F False) 0"
  unfolding written_def using assms by (intro conjI exI [of _ "[]"]) auto

lemma fifo_reorders:
  assumes valid: "valid_indices (m indices) index_count vertex_count"
    and dst: "index_count \<le> length (m destination)"
    and cs: "chk \<longrightarrow> 3 \<le> cache_size"
  shows "\<exists>m'. meshopt_optimizeVertexCacheFifo chk m destination indices index_count vertex_count cache_size = Some m'
           \<and> reordered m destination indices index_count m'"
proof (cases "index_count = 0 \<or> vertex_count = 0")
  case True
  with valid have "index_count = 0" by (rule valid_indices_empty)
  with True cs show ?thesis
    by (auto simp: meshopt_optimizeVertexCacheFifo_def reordered_def triangles_def c_assert_def)
next
  case False
  define F where "F = index_count div 3"
  from valid have n: "index_count = 3 * F" "index_count mod 3 = 0" "index_count \<le> length (m indices)"
    "index_count < 2 ^ 32"
    by (auto simp: valid_indices_def F_def)
  from support_in_place_spec [of index_count m indices destination, OF n(3)]
  obtain cp ip where sp: "support_in_place m destination indices index_count = Some (cp, ip)"
    "ip \<noteq> Ext destination" "take index_count (deref m cp ip) = take index_count (m indices)"
    by blast
  define idx where "idx = take index_count (m indices)"
  have il: "length idx = 3 * F" using n(1,3) by (simp add: idx_def)
  have rng: "\<forall>j < 3 * F. idx ! j < vertex_count"
    using valid_indices_nth [OF valid] n(1) by (simp add: idx_def)
  have vb: "valid_indices (deref m cp ip) index_count vertex_count"
  proof -
    have "index_count \<le> length (deref m cp ip)"
      using sp(3) n(3) by (metis length_take min.absorb2 min.cobounded1)
    with valid sp(3) show ?thesis by (simp add: valid_indices_def)
  qed
  then have "\<forall>j < index_count. deref m cp ip ! j < vertex_count"
    using valid_indices_nth by blast
  from buildAdjacency_spec [OF n(2) _ n(4) this, of chk] vb
  obtain adj where adj: "buildAdjacency chk (Adjacency_new index_count vertex_count) (deref m cp ip)
        index_count vertex_count = Some adj" "adjacency_of (deref m cp ip) index_count vertex_count adj"
    by (auto simp: valid_indices_def)
  have adj': "adjacency_of idx (3 * F) vertex_count adj"
    using adj(2) adjacency_of_take [of index_count "deref m cp ip" vertex_count adj] sp(3)
    by (simp add: idx_def n(1))
  have tcl: "length (triangle_counts adj) = vertex_count"
    using adj' by (simp add: adjacency_of_def)
  define s0 :: fifo_state where "s0 = \<lparr>mem = m, live_triangles = triangle_counts adj,
               emitted_flags = replicate F False,
               input_cursor = 1, output_triangle = 0,
               cache_timestamps = replicate vertex_count 0,
               dead_end = replicate index_count 0, dead_end_top = 0,
               current_vertex = Some 0, timestamp = cache_size + 1\<rparr>"
  have ctx: "length idx = 3 * F" "3 * F \<le> length (m destination)" "ip \<noteq> Ext destination" "3 * F < 2 ^ 32"
    "\<forall>j < 3 * F. idx ! j < vertex_count"
    using il dst n(1,4) sp(2) rng by simp_all
  have w0: "written idx F m destination cp ip m (replicate F False) 0"
    using sp(3) by (intro written_initial) (simp add: idx_def n(1))
  have "pending (replicate F False) idx F v = triangle_counts adj ! v" if "v < vertex_count" for v
  proof -
    have "filter (\<lambda>j. \<not> replicate F False ! (j div 3)) (corners idx (3 * F) v) = corners idx (3 * F) v"
      by (rule filter_True) (auto simp: set_corners)
    with adj' that show ?thesis
      by (simp add: pending_def adjacency_of_def)
  qed
  with w0 tcl have "fifo_inv idx F vertex_count m destination cp ip s0"
    by (simp add: fifo_inv_def s0_def n(1))
  with False have o0: "fifo_outer idx F vertex_count m destination cp ip s0"
    by (auto simp: fifo_outer_def s0_def)
  have "\<exists>s. while_loop (\<lambda>s. current_vertex s \<noteq> None)
          (fifo_iteration destination cp ip vertex_count cache_size adj) s0 = Some s
         \<and> fifo_outer idx F vertex_count m destination cp ip s \<and> \<not> current_vertex s \<noteq> None"
    using o0
  proof (rule while_loop_rule [where m = "fifo_measure F"])
    fix s assume "fifo_outer idx F vertex_count m destination cp ip s" "current_vertex s \<noteq> None"
    then show "\<exists>s'. fifo_iteration destination cp ip vertex_count cache_size adj s = Some s'
        \<and> fifo_outer idx F vertex_count m destination cp ip s' \<and> fifo_measure F s' < fifo_measure F s"
      using ctx adj' by (rule fifo_iteration_spec)
  qed
  then obtain s where s: "while_loop (\<lambda>s. current_vertex s \<noteq> None)
          (fifo_iteration destination cp ip vertex_count cache_size adj) s0 = Some s"
    "fifo_outer idx F vertex_count m destination cp ip s" "current_vertex s = None"
    by auto
  from s(2,3) have inv: "fifo_inv idx F vertex_count m destination cp ip s"
    and z: "\<forall>u < vertex_count. live_triangles s ! u = 0"
    by (auto simp: fifo_outer_def)
  from inv have w: "written idx F m destination cp ip (mem s) (emitted_flags s) (output_triangle s)"
    and lv: "\<forall>v < vertex_count. live_triangles s ! v = pending (emitted_flags s) idx F v"
    by (simp_all add: fifo_inv_def)
  have all: "emitted_flags s ! t" if "t < F" for t
  proof -
    from that have j: "3 * t < 3 * F" by simp
    with rng have "idx ! (3 * t) < vertex_count" by blast
    with z lv have "pending (emitted_flags s) idx F (idx ! (3 * t)) = 0" by simp
    with j have "emitted_flags s ! ((3 * t) div 3)" unfolding pending_0_iff by blast
    then show ?thesis by simp
  qed
  have "output_triangle s = card {t. t < F \<and> emitted_flags s ! t}"
    using w by (rule written_out_card)
  also have "{t. t < F \<and> emitted_flags s ! t} = {..<F}" using all by auto
  finally have out: "output_triangle s = F" by simp
  have run: "meshopt_optimizeVertexCacheFifo chk m destination indices index_count vertex_count cache_size
               = Some (mem s)"
    using False c_assert_imp [OF cs] n(2) sp(1) adj(1) tcl s(1) out
    by (simp add: meshopt_optimizeVertexCacheFifo_def memcpy_def s0_def F_def)
  have wF: "written idx F m destination cp ip (mem s) (emitted_flags s) F"
    using w out by simp
  have "mset (triangles (mem s destination) F) = mset (triangles idx F)"
    using wF il ctx(2) by (rule written_final)
  also have "triangles idx F = triangles (m indices) F"
    by (rule triangles_cong) (simp add: idx_def n(1))
  finally have "reordered m destination indices index_count (mem s)"
    using wF by (simp add: reordered_def written_def n(1))
  with run show ?thesis by blast
qed


text \<open>
  Claim C8: for every valid input, the FIFO variant with \<^verbatim>\<open>cache_size = 3\<close>, the smallest legal
  cache size, terminates: with assertions compiled in it returns, so its main loop has
  stopped and the final \<^verbatim>\<open>assert(output_triangle == face_count)\<close> has held; and its output is a
  reordering of the triangles of the input.
\<close>

theorem fifo_cache_size_3:
  assumes "valid_indices (m indices) index_count vertex_count"
    and "index_count \<le> length (m destination)"
  shows "\<exists>m'. meshopt_optimizeVertexCacheFifo True m destination indices index_count vertex_count 3 = Some m'
           \<and> reordered m destination indices index_count m'"
  using assms by (intro fifo_reorders) simp_all

theorem fifo_cache_size_3_witness:
  "valid_indices (((\<lambda>_::nat. [])(0 := [0, 1, 2, 0, 2, 3], 1 := [9, 9, 9, 9, 9, 9])) 0) 6 4
   \<and> (6::nat) \<le> length (((\<lambda>_::nat. [])(0 := [0, 1, 2, 0, 2, 3], 1 := [9, 9, 9, 9, 9, 9 :: nat])) 1)
   \<and> (\<exists>m'. meshopt_optimizeVertexCacheFifo True ((\<lambda>_::nat. [])(0 := [0, 1, 2, 0, 2, 3], 1 := [9, 9, 9, 9, 9, 9])) 1 0 6 4 3 = Some m'
         \<and> reordered ((\<lambda>_::nat. [])(0 := [0, 1, 2, 0, 2, 3], 1 := [9, 9, 9, 9, 9, 9])) 1 0 6 m')"
proof -
  let ?m = "(\<lambda>_::nat. [])(0 := [0, 1, 2, 0, 2, 3], 1 := [9, 9, 9, 9, 9, 9 :: nat])"
  have h: "valid_indices (?m 0) 6 4" "(6::nat) \<le> length (?m 1)"
    by (simp_all add: valid_indices_def)
  from fifo_cache_size_3 [of ?m 0 6 4 1, OF h] h show ?thesis
    by blast
qed

section \<open>The greedy reorderer: termination and output\<close>

subsection \<open>Removing a triangle from a neighbour list\<close>






lemma pending_at_mset:
  "pending_at ef idx F v = mset (map (\<lambda>j. j div 3) (filter (\<lambda>j. \<not> ef ! (j div 3)) (corners idx (3 * F) v)))"
  by (simp add: pending_at_def del: mset_filter)

lemma size_pending_at: "size (pending_at ef idx F v) = pending ef idx F v"
  unfolding pending_at_mset pending_def by (simp only: size_mset length_map)














lemma scores_only_refl: "scores_only s s"
  by (simp add: scores_only_def)

lemma scores_only_trans:
  assumes "scores_only s s1" "scores_only s1 s2"
  shows "scores_only s s2"
proof -
  from assms(1) have 1: "s1 = s\<lparr>vertex_scores := vertex_scores s1, triangle_scores := triangle_scores s1,
            best_triangle := best_triangle s1, best_score := best_score s1\<rparr>"
    and l1: "length (vertex_scores s1) = length (vertex_scores s)"
      "length (triangle_scores s1) = length (triangle_scores s)"
    by (simp_all add: scores_only_def)
  from assms(2) have 2: "s2 = s1\<lparr>vertex_scores := vertex_scores s2, triangle_scores := triangle_scores s2,
            best_triangle := best_triangle s2, best_score := best_score s2\<rparr>"
    and l2: "length (vertex_scores s2) = length (vertex_scores s1)"
      "length (triangle_scores s2) = length (triangle_scores s1)"
    by (simp_all add: scores_only_def)
  have "s2 = s\<lparr>vertex_scores := vertex_scores s2, triangle_scores := triangle_scores s2,
            best_triangle := best_triangle s2, best_score := best_score s2\<rparr>"
    by (subst 2, subst 1) simp
  with l1 l2 show ?thesis
    by (simp add: scores_only_def)
qed


subsection \<open>The loops of the score update compute \<open>scores_result\<close>\<close>

lemma vertexScore_spec:
  assumes "-1 \<le> pos" "pos < 16"
  shows "vertexScore ar chk pos n = Some (vertex_score ar pos n)"
proof -
  have "nat (1 + pos) < length vertex_score_table_cache"
    using assms by (simp add: vertex_score_table_cache_def)
  moreover have "(if n < max_valence then n else max_valence) < length vertex_score_table_live"
    by (simp add: vertex_score_table_live_def max_valence_def)
  ultimately show ?thesis
    using assms by (simp add: vertexScore_def vertex_score_def rd_int_def max_cache_size_def Let_def)
qed

lemma triangle_result_frame:
  "adjacency (triangle_result ar d t s) = adjacency s"
  "emitted_flags (triangle_result ar d t s) = emitted_flags s"
  "length (triangle_scores (triangle_result ar d t s)) = length (triangle_scores s)"
  "scores_only s (triangle_result ar d t s)"
  by (simp_all add: triangle_result_def Let_def scores_only_def)

lemma update_triangle_spec:
  assumes "it < length (data (adjacency s))"
    and "data (adjacency s) ! it < length (emitted_flags s)"
    and "length (triangle_scores s) = length (emitted_flags s)"
    and "\<not> emitted_flags s ! (data (adjacency s) ! it)"
    and "chk \<longrightarrow> flit ar 0 < fadd ar (triangle_scores s ! (data (adjacency s) ! it)) d"
  shows "update_triangle ar chk d it s = Some (triangle_result ar d (data (adjacency s) ! it) s)"
  using assms c_assert_imp [OF assms(5)]
  by (simp add: update_triangle_def triangle_result_def Let_def)

lemma triangle_loop_spec:
  assumes "\<forall>it \<in> set is. it < length (data (adjacency s)) \<and> data (adjacency s) ! it < length (emitted_flags s)
              \<and> \<not> emitted_flags s ! (data (adjacency s) ! it)"
    and "length (triangle_scores s) = length (emitted_flags s)"
    and "chk \<longrightarrow> (\<forall>e \<in> set (triangle_events ar d (map (\<lambda>it. data (adjacency s) ! it) is) s). flit ar 0 < snd e)"
  shows "for_loop is (update_triangle ar chk d) s =
           Some (fold (triangle_result ar d) (map (\<lambda>it. data (adjacency s) ! it) is) s)"
  using assms
proof (induction "is" arbitrary: s)
  case Nil
  then show ?case by simp
next
  case (Cons it "is")
  let ?t = "data (adjacency s) ! it"
  let ?s1 = "triangle_result ar d ?t s"
  have 1: "update_triangle ar chk d it s = Some ?s1"
    using Cons.prems by (intro update_triangle_spec) auto
  have "for_loop is (update_triangle ar chk d) ?s1 =
           Some (fold (triangle_result ar d) (map (\<lambda>it. data (adjacency ?s1) ! it) is) ?s1)"
    using Cons.prems by (intro Cons.IH) (auto simp: triangle_result_frame)
  with 1 show ?case
    by (simp add: triangle_result_frame)
qed

lemma fold_triangle_result_frame:
  "adjacency (fold (triangle_result ar d) ts s) = adjacency s"
  "emitted_flags (fold (triangle_result ar d) ts s) = emitted_flags s"
  "scores_only s (fold (triangle_result ar d) ts s)"
proof (induction ts arbitrary: s)
  case Nil
  {
    case 1 show ?case by simp
  next
    case 2 show ?case by simp
  next
    case 3 show ?case by (simp add: scores_only_refl)
  }
next
  case (Cons t ts)
  {
    case 1 show ?case by (simp add: Cons.IH triangle_result_frame)
  next
    case 2 show ?case by (simp add: Cons.IH triangle_result_frame)
  next
    case 3
    show ?case
      using scores_only_trans [OF triangle_result_frame(4) Cons.IH(3)] by simp
  }
qed

lemma rescored_frame: "scores_only s (rescored ar cs i s)" if "cache s ! i < length (vertex_scores s)"
  by (simp add: rescored_def scores_only_def)

lemma vertex_result_frame:
  "scores_only s (vertex_result ar cs i s)"
  unfolding vertex_result_def
  by (rule scores_only_trans [OF _ fold_triangle_result_frame(3)])
     (simp add: rescored_def scores_only_def)

lemma scores_only_fields:
  assumes "scores_only s s'"
  shows "mem s' = mem s" "live_triangles s' = live_triangles s" "emitted_flags s' = emitted_flags s"
    "input_cursor s' = input_cursor s" "output_triangle s' = output_triangle s"
    "adjacency s' = adjacency s" "cache s' = cache s" "cache_new s' = cache_new s"
    "cache_count s' = cache_count s" "cache_write s' = cache_write s"
    "current_triangle s' = current_triangle s"
    "length (vertex_scores s') = length (vertex_scores s)"
    "length (triangle_scores s') = length (triangle_scores s)"
proof -
  from assms have e: "s' = s\<lparr>vertex_scores := vertex_scores s', triangle_scores := triangle_scores s',
            best_triangle := best_triangle s', best_score := best_score s'\<rparr>"
    and l: "length (vertex_scores s') = length (vertex_scores s)"
      "length (triangle_scores s') = length (triangle_scores s)"
    by (simp_all add: scores_only_def)
  show "mem s' = mem s" by (subst e) simp
  show "live_triangles s' = live_triangles s" by (subst e) simp
  show "emitted_flags s' = emitted_flags s" by (subst e) simp
  show "input_cursor s' = input_cursor s" by (subst e) simp
  show "output_triangle s' = output_triangle s" by (subst e) simp
  show "adjacency s' = adjacency s" by (subst e) simp
  show "cache s' = cache s" by (subst e) simp
  show "cache_new s' = cache_new s" by (subst e) simp
  show "cache_count s' = cache_count s" by (subst e) simp
  show "cache_write s' = cache_write s" by (subst e) simp
  show "current_triangle s' = current_triangle s" by (subst e) simp
  show "length (vertex_scores s') = length (vertex_scores s)"
    "length (triangle_scores s') = length (triangle_scores s)" by (rule l)+
qed

lemma sweep_ready_scores_only:
  assumes "sweep_ready F V s" "scores_only s s'"
  shows "sweep_ready F V s'"
  using assms(1) unfolding sweep_ready_def scores_only_fields [OF assms(2)] by simp

lemma update_vertex_spec:
  assumes rdy: "sweep_ready F V s" and i: "i < cache_write s" "cache_write s \<le> cs + 3" "cs \<le> 16"
    and ok: "chk \<longrightarrow> (\<forall>e \<in> set (vertex_events ar cs i s). flit ar 0 < snd e)"
  shows "update_vertex ar chk cs i s = Some (vertex_result ar cs i s)"
proof -
  let ?v = "cache s ! i"
  let ?adj = "adjacency s"
  let ?b = "offsets ?adj ! ?v" and ?n = "triangle_counts ?adj ! ?v"
  from rdy i have v: "i < length (cache s)" "?v < V" by (auto simp: sweep_ready_def)
  from rdy v have len: "length (emitted_flags s) = F" "length (triangle_scores s) = F"
    "length (live_triangles s) = V" "length (vertex_scores s) = V"
    "length (offsets ?adj) = V" "length (triangle_counts ?adj) = V"
    and seg: "?b + ?n \<le> length (data ?adj)"
    and nb: "\<forall>t \<in> set (neighbours ?adj ?v). t < F \<and> \<not> emitted_flags s ! t"
    by (auto simp: sweep_ready_def)
  have pos: "-1 \<le> position_of cs i" "position_of cs i < 16"
    using i(3) by (auto simp: position_of_def)
  have L: "map (\<lambda>it. data ?adj ! it) [?b..<?b + ?n] = neighbours ?adj ?v"
    using seg by (auto simp: neighbours_def intro!: nth_equalityI)
  let ?s1 = "rescored ar cs i s"
  have s1: "adjacency ?s1 = ?adj" "emitted_flags ?s1 = emitted_flags s"
    "triangle_scores ?s1 = triangle_scores s"
    by (simp_all add: rescored_def)
  have "for_loop [?b..<?b + ?n] (update_triangle ar chk (score_diff_of ar cs i s)) ?s1
      = Some (fold (triangle_result ar (score_diff_of ar cs i s))
           (map (\<lambda>it. data (adjacency ?s1) ! it) [?b..<?b + ?n]) ?s1)"
  proof (rule triangle_loop_spec)
    show "\<forall>it \<in> set [?b..<?b + ?n]. it < length (data (adjacency ?s1))
        \<and> data (adjacency ?s1) ! it < length (emitted_flags ?s1)
        \<and> \<not> emitted_flags ?s1 ! (data (adjacency ?s1) ! it)"
    proof
      fix it assume it: "it \<in> set [?b..<?b + ?n]"
      then have "data ?adj ! it \<in> set (map (\<lambda>it. data ?adj ! it) [?b..<?b + ?n])"
        by (intro imageI [of it, THEN subst [OF set_map [symmetric], of "\<lambda>S. _ \<in> S"]])
      with nb L have "data ?adj ! it < F \<and> \<not> emitted_flags s ! (data ?adj ! it)" by simp
      with it seg len show "it < length (data (adjacency ?s1))
        \<and> data (adjacency ?s1) ! it < length (emitted_flags ?s1)
        \<and> \<not> emitted_flags ?s1 ! (data (adjacency ?s1) ! it)"
        by (simp add: s1)
    qed
    show "length (triangle_scores ?s1) = length (emitted_flags ?s1)"
      using len by (simp add: s1)
    show "chk \<longrightarrow> (\<forall>e \<in> set (triangle_events ar (score_diff_of ar cs i s)
        (map (\<lambda>it. data (adjacency ?s1) ! it) [?b..<?b + ?n]) ?s1). flit ar 0 < snd e)"
      using ok by (simp add: vertex_events_def s1 L)
  qed
  then have "for_loop [?b..<?b + ?n] (update_triangle ar chk (score_diff_of ar cs i s)) ?s1
      = Some (vertex_result ar cs i s)"
    by (simp add: s1 L vertex_result_def)
  with v len vertexScore_spec [OF pos, of ar chk "live_triangles s ! ?v"] show ?thesis
    by (simp add: update_vertex_def Let_def score_diff_of_def rescored_def position_of_def)
qed

lemma vertex_loop_spec:
  assumes "sweep_ready F V s" "\<forall>i \<in> set is. i < cache_write s" "cache_write s \<le> cs + 3" "cs \<le> 16"
    and "chk \<longrightarrow> (\<forall>e \<in> set (events_from ar cs is s). flit ar 0 < snd e)"
  shows "for_loop is (update_vertex ar chk cs) s = Some (fold (vertex_result ar cs) is s)"
  using assms
proof (induction "is" arbitrary: s)
  case Nil
  then show ?case by simp
next
  case (Cons i "is")
  let ?s1 = "vertex_result ar cs i s"
  have fr: "scores_only s ?s1" by (rule vertex_result_frame)
  have 1: "update_vertex ar chk cs i s = Some ?s1"
    using Cons.prems by (intro update_vertex_spec [where F = F and V = V]) auto
  have "for_loop is (update_vertex ar chk cs) ?s1 = Some (fold (vertex_result ar cs) is ?s1)"
    using Cons.prems sweep_ready_scores_only [OF Cons.prems(1) fr]
    by (intro Cons.IH) (auto simp: scores_only_fields [OF fr])
  with 1 show ?case by simp
qed

lemma update_scores_spec:
  assumes rdy: "sweep_ready F V s" and cw: "cache_write s \<le> cs + 3" "cs \<le> 16"
    and ok: "chk \<longrightarrow> (\<forall>e \<in> set (sweep_events ar cs s). flit ar 0 < snd e)"
  shows "update_scores ar chk cs s = Some (scores_result ar cs s)"
proof -
  let ?s0 = "s\<lparr>best_triangle := None, best_score := flit ar 0\<rparr>"
  have "sweep_ready F V ?s0" using rdy by (simp add: sweep_ready_def)
  then have "for_loop [0..<cache_write ?s0] (update_vertex ar chk cs) ?s0
      = Some (fold (vertex_result ar cs) [0..<cache_write ?s0] ?s0)"
    using cw ok by (intro vertex_loop_spec [where F = F and V = V]) (auto simp: sweep_events_def)
  then show ?thesis
    by (simp add: update_scores_def scores_result_def)
qed




lemma running_best_Nil [simp]: "running_best [] b = b"
  by (simp add: running_best_def)

lemma running_best_Cons:
  "running_best (e # evs) b = running_best evs (if snd b < snd e then (Some (fst e), snd e) else b)"
  by (simp add: running_best_def)

lemma running_best_append: "running_best (xs @ ys) b = running_best ys (running_best xs b)"
  by (simp add: running_best_def)

lemma running_best_snoc:
  "running_best (evs @ [e]) b =
     (if snd (running_best evs b) < snd e then (Some (fst e), snd e) else running_best evs b)"
  by (simp add: running_best_def)

lemma running_best_spec:
  fixes z :: "'s::linorder"
  shows "(fst (running_best evs (None, z)) = None \<longrightarrow> snd (running_best evs (None, z)) = z
            \<and> (\<forall>e \<in> set evs. \<not> z < snd e))
       \<and> (\<forall>t. fst (running_best evs (None, z)) = Some t \<longrightarrow>
            z < snd (running_best evs (None, z))
            \<and> first_best snd evs (t, snd (running_best evs (None, z))))"
proof (induction evs rule: rev_induct)
  case Nil
  then show ?case by simp
next
  case (snoc e evs)
  let ?r = "running_best evs (None, z)"
  show ?case
  proof (cases "snd ?r < snd e")
    case True
    have up: "running_best (evs @ [e]) (None, z) = (Some (fst e), snd e)"
      using True by (simp add: running_best_snoc)
    have le: "\<forall>y \<in> set evs. snd y < snd e"
    proof (cases "fst ?r")
      case None
      with snoc True show ?thesis by (auto simp: not_less intro: le_less_trans)
    next
      case (Some t)
      with snoc have "first_best snd evs (t, snd ?r)" by simp
      then have "\<forall>y \<in> set evs. snd y \<le> snd ?r" by (auto simp: first_best_def)
      with True show ?thesis by (auto intro: le_less_trans)
    qed
    have z: "z < snd e"
    proof (cases "fst ?r")
      case None
      with snoc True show ?thesis by simp
    next
      case (Some t)
      with snoc True show ?thesis by (auto intro: less_trans)
    qed
    have "first_best snd (evs @ [e]) (fst e, snd e)"
      unfolding first_best_def using le
      by (intro exI [of _ "length evs"]) (auto simp: nth_append less_imp_le)
    with up z show ?thesis by simp
  next
    case False
    have keep: "running_best (evs @ [e]) (None, z) = ?r"
      using False by (simp add: running_best_snoc)
    show ?thesis
    proof (cases "fst ?r")
      case None
      with snoc False keep show ?thesis by auto
    next
      case (Some t)
      with snoc have z: "z < snd ?r" and fb: "first_best snd evs (t, snd ?r)" by simp_all
      from fb obtain k where k: "k < length evs" "evs ! k = (t, snd ?r)" "\<forall>y \<in> set evs. snd y \<le> snd ?r"
        "\<forall>j < k. snd (evs ! j) < snd ?r"
        by (auto simp: first_best_def)
      have "first_best snd (evs @ [e]) (t, snd ?r)"
        unfolding first_best_def using k False
        by (intro exI [of _ k]) (auto simp: nth_append not_less)
      with Some z keep show ?thesis by simp
    qed
  qed
qed

subsection \<open>The best triangle of the sweep is the running maximum of its events\<close>

lemma best_triangle_result:
  "(best_triangle (triangle_result ar d t s), best_score (triangle_result ar d t s))
     = running_best [(t, fadd ar (triangle_scores s ! t) d)] (best_triangle s, best_score s)"
  by (simp add: triangle_result_def Let_def running_best_Cons)

lemma best_fold_triangle_result:
  "(best_triangle (fold (triangle_result ar d) ts s), best_score (fold (triangle_result ar d) ts s))
     = running_best (triangle_events ar d ts s) (best_triangle s, best_score s)"
proof (induction ts arbitrary: s)
  case Nil
  then show ?case by simp
next
  case (Cons t ts)
  have "running_best (triangle_events ar d (t # ts) s) (best_triangle s, best_score s)
      = running_best (triangle_events ar d ts (triangle_result ar d t s))
          (running_best [(t, fadd ar (triangle_scores s ! t) d)] (best_triangle s, best_score s))"
    by (simp add: running_best_Cons)
  then show ?case
    by (simp add: Cons.IH best_triangle_result [symmetric])
qed

lemma best_vertex_result:
  "(best_triangle (vertex_result ar cs i s), best_score (vertex_result ar cs i s))
     = running_best (vertex_events ar cs i s) (best_triangle s, best_score s)"
  unfolding vertex_result_def vertex_events_def best_fold_triangle_result
  by (simp add: rescored_def)

lemma best_fold_vertex_result:
  "(best_triangle (fold (vertex_result ar cs) is s), best_score (fold (vertex_result ar cs) is s))
     = running_best (events_from ar cs is s) (best_triangle s, best_score s)"
proof (induction "is" arbitrary: s)
  case Nil
  then show ?case by simp
next
  case (Cons i "is")
  show ?case
    by (simp add: Cons.IH running_best_append best_vertex_result [symmetric])
qed

lemma best_scores_result:
  "(best_triangle (scores_result ar cs s), best_score (scores_result ar cs s))
     = running_best (sweep_events ar cs s) (None, flit ar 0)"
  unfolding scores_result_def sweep_events_def best_fold_vertex_result by simp

subsection \<open>The triangles of the events are those of the neighbour lists of the cache list\<close>

lemma fst_triangle_events: "map fst (triangle_events ar d ts s) = ts"
  by (induction ts arbitrary: s) simp_all

lemma fst_vertex_events: "map fst (vertex_events ar cs i s) = neighbours (adjacency s) (cache s ! i)"
  by (simp add: vertex_events_def fst_triangle_events rescored_def)

lemma fst_events_from:
  "map fst (events_from ar cs is s) = concat (map (\<lambda>i. neighbours (adjacency s) (cache s ! i)) is)"
proof (induction "is" arbitrary: s)
  case Nil
  then show ?case by simp
next
  case (Cons i "is")
  have fr: "scores_only s (vertex_result ar cs i s)" by (rule vertex_result_frame)
  show ?case
    by (simp add: Cons.IH fst_vertex_events scores_only_fields [OF fr])
qed

lemma fst_sweep_events:
  "map fst (sweep_events ar cs s)
     = concat (map (\<lambda>i. neighbours (adjacency s) (cache s ! i)) [0..<cache_write s])"
  by (simp add: sweep_events_def fst_events_from)


















lemma adjacency_of_unique:
  assumes "adjacency_of idx (3 * F) V adj" "adjacency_of idx (3 * F) V adj'" "\<forall>j < 3 * F. idx ! j < V"
  shows "adj = adj'"
proof -
  from assms(1,2) have "triangle_counts adj = triangle_counts adj'" "offsets adj = offsets adj'"
    "\<forall>v < V. neighbours adj v = neighbours adj' v"
    by (simp_all add: adjacency_of_def)
  moreover from this(3) have "map (neighbours adj) [0..<V] = map (neighbours adj') [0..<V]"
    by simp
  then have "data adj = data adj'"
    using adjacency_of_counts(2) [OF assms(1,3)] adjacency_of_counts(2) [OF assms(2,3)]
    by (simp only:)
  ultimately show ?thesis by simp
qed








lemma all_less_3: "(\<forall>v<3::nat. P v) \<longleftrightarrow> P 0 \<and> P 1 \<and> P 2"
  by (auto simp: less_Suc_eq numeral_eq_Suc)

lemma all_less_5: "(\<forall>v<5::nat. P v) \<longleftrightarrow> P 0 \<and> P 1 \<and> P 2 \<and> P 3 \<and> P 4"
  by (auto simp: less_Suc_eq numeral_eq_Suc)

text \<open>
  Claim C3: the score update of an iteration (lines 298 to 334) meets the pending triangles in
  the order of the neighbour lists of the vertices of the new cache list, and gives each, when
  it meets it, the score \<^verbatim>\<open>tri_score\<close>; \<open>sweep_events\<close> is the list of these pairs. The triangle
  the sweep leaves in \<^verbatim>\<open>best_triangle\<close>, which line 342 makes the current triangle, is the first
  in this order whose score is the largest of all: every earlier score is strictly smaller, so
  a later triangle with an equal score does not replace it. This holds for every arithmetic on
  the scores.
\<close>

theorem sweep_first_maximum_wins:
  fixes ar :: "'s::linorder arith"
  assumes "sweep_ready F V s" and "cache_write s \<le> 19"
    and "chk \<longrightarrow> (\<forall>e \<in> set (sweep_events ar 16 s). flit ar 0 < snd e)"
  shows "\<exists>s2. update_scores ar chk 16 s = Some s2
     \<and> map fst (sweep_events ar 16 s)
         = concat (map (\<lambda>i. neighbours (adjacency s) (cache s ! i)) [0..<cache_write s])
     \<and> (\<forall>t. best_triangle s2 = Some t \<longrightarrow>
           first_best snd (sweep_events ar 16 s) (t, best_score s2) \<and> flit ar 0 < best_score s2
           \<and> next_triangle F s2 = Some (s2\<lparr>current_triangle := Some t\<rparr>))
     \<and> (best_triangle s2 = None \<longrightarrow> (\<forall>e \<in> set (sweep_events ar 16 s). \<not> flit ar 0 < snd e))"
proof -
  let ?s2 = "scores_result ar 16 s" and ?evs = "sweep_events ar 16 s"
  have us: "update_scores ar chk 16 s = Some ?s2"
    using assms(1) _ _ assms(3) by (rule update_scores_spec) (use assms(2) in simp_all)
  have b: "(best_triangle ?s2, best_score ?s2) = running_best ?evs (None, flit ar 0)"
    by (rule best_scores_result)
  then have f: "fst (running_best ?evs (None, flit ar 0)) = best_triangle ?s2"
    and g: "snd (running_best ?evs (None, flit ar 0)) = best_score ?s2"
    by (metis fst_conv, metis snd_conv)
  note rb = running_best_spec [of ?evs "flit ar 0", unfolded f g]
  have "next_triangle F ?s2 = Some (?s2\<lparr>current_triangle := Some t\<rparr>)" if "best_triangle ?s2 = Some t" for t
    using that by (simp add: next_triangle_def)
  with us rb fst_sweep_events [of ar 16 s] show ?thesis
    by (intro exI [of _ ?s2]) simp
qed

theorem sweep_first_maximum_wins_witness:
  "sweep_ready 3 5 example_sweep_state \<and> cache_write example_sweep_state \<le> 19
   \<and> sweep_events exact_ar 16 example_sweep_state = [(2, 2986), (1, 2986), (2, 3995), (1, 3995)]
   \<and> (\<exists>s2. update_scores exact_ar True 16 example_sweep_state = Some s2
        \<and> best_triangle s2 = Some 2 \<and> best_score s2 = 3995
        \<and> first_best snd [(2, 2986), (1, 2986), (2, 3995), (1, 3995)] (2::nat, 3995::int)
        \<and> next_triangle 3 s2 = Some (s2\<lparr>current_triangle := Some 2\<rparr>))"
proof -
  have nb: "neighbours (adjacency example_sweep_state) 0 = [2, 1]"
    "neighbours (adjacency example_sweep_state) (Suc 0) = [2, 1]"
    "neighbours (adjacency example_sweep_state) 2 = []"
    "neighbours (adjacency example_sweep_state) 3 = [1]"
    "neighbours (adjacency example_sweep_state) 4 = [2]"
    by (simp_all add: neighbours_def example_sweep_state_def)
  have r: "sweep_ready 3 5 example_sweep_state"
    unfolding sweep_ready_def
    by (simp add: nb all_less_5) (simp add: example_sweep_state_def all_less_3)
  have c: "cache_write example_sweep_state \<le> 19"
    by (simp add: example_sweep_state_def)
  have e: "sweep_events exact_ar 16 example_sweep_state = [(2, 2986), (1, 2986), (2, 3995), (1, 3995)]"
    by code_simp
  have p: "True \<longrightarrow> (\<forall>e \<in> set (sweep_events exact_ar 16 example_sweep_state). flit exact_ar 0 < snd e)"
    unfolding e by (simp add: exact_ar_def)
  from sweep_first_maximum_wins [OF r c p]
  obtain s2 where s2: "update_scores exact_ar True 16 example_sweep_state = Some s2"
    "\<forall>t. best_triangle s2 = Some t \<longrightarrow>
           first_best snd (sweep_events exact_ar 16 example_sweep_state) (t, best_score s2)
           \<and> flit exact_ar 0 < best_score s2
           \<and> next_triangle 3 s2 = Some (s2\<lparr>current_triangle := Some t\<rparr>)"
    by blast
  have u: "map_option (\<lambda>s. (best_triangle s, best_score s)) (update_scores exact_ar True 16 example_sweep_state)
      = Some (Some 2, 3995)"
    by code_simp
  with s2(1) have b: "best_triangle s2 = Some 2" "best_score s2 = 3995" by simp_all
  with s2(2) have "first_best snd [(2, 2986), (1, 2986), (2, 3995), (1, 3995)] (2::nat, 3995::int)"
    "next_triangle 3 s2 = Some (s2\<lparr>current_triangle := Some 2\<rparr>)"
    unfolding e by simp_all
  with r c e s2(1) b show ?thesis by blast
qed

section \<open>The scores of the greedy reorderer without rounding\<close>

subsection \<open>Scores without rounding\<close>

lemma exact_ar_simps [simp]:
  "fadd exact_ar x y = x + y" "fsub exact_ar x y = x - y" "flit exact_ar n = n"
  by (simp_all add: exact_ar_def)







subsection \<open>The scores a neighbour list gets\<close>





subsection \<open>One entry of the cache list\<close>




subsection \<open>The whole score update\<close>




subsection \<open>The invariant of the scores\<close>









subsection \<open>Neighbour lists and pending triangles\<close>









end
